theory Spec2Isabelle
  imports Complex_Main
begin

section \<open>The self-attentive sequence encoder of \<^verbatim>\<open>edurec/sasrec_model.py\<close>\<close>

text \<open>
  The module composes tensor operators of its deep-learning framework. For the layers
  (which operator is applied to which tensor, in which order, and where every entry
  goes) tensors are modelled as nested lists over the reals, outermost axis first, and
  every framework operator the module calls is given its mathematical definition on such
  lists; rounding plays no part in those properties. The numeric properties of
  \<open>scaled_dot_product_attention\<close> are stated on a second model of that function, over
  tensors of any rank and with the arithmetic as a parameter, which is then taken to be
  single precision. Python integers are \<open>int\<close>; sizes read from a tensor's shape are
  \<open>nat\<close>. What the program raises is a value of \<open>py_error\<close>.

  A nested list does not record the sizes of the axes inside an empty axis, and a
  division by zero is 0 in HOL where the framework computes a NaN. The properties below
  are therefore stated for tensors whose axes are not empty and for a positive depth,
  where the lists and the framework's tensors agree.
\<close>

type_synonym vec = "real list"
type_synonym mat = "real list list"
type_synonym tensor3 = "real list list list"
type_synonym tensor4 = "real list list list list"

datatype py_error = AssertionError | ZeroDivisionError | InvalidArgumentError

subsection \<open>Shapes\<close>

definition shape1 :: "nat \<Rightarrow> 'a list \<Rightarrow> bool" where
  "shape1 d v = (length v = d)"

definition shape2 :: "nat \<Rightarrow> nat \<Rightarrow> 'a list list \<Rightarrow> bool" where
  "shape2 n d m = (length m = n \<and> list_all (shape1 d) m)"

definition shape3 :: "nat \<Rightarrow> nat \<Rightarrow> nat \<Rightarrow> 'a list list list \<Rightarrow> bool" where
  "shape3 b n d t = (length t = b \<and> list_all (shape2 n d) t)"

definition shape4 :: "nat \<Rightarrow> nat \<Rightarrow> nat \<Rightarrow> nat \<Rightarrow> 'a list list list list \<Rightarrow> bool" where
  "shape4 b h n d t = (length t = b \<and> list_all (shape3 h n d) t)"

text \<open>The size of the second axis, as \<open>tf.shape(x)[1]\<close> of a non-empty tensor.\<close>

definition ncols :: "'a list list \<Rightarrow> nat" where
  "ncols m = (case m of [] \<Rightarrow> 0 | r # _ \<Rightarrow> length r)"

subsection \<open>Multi-head attention: construction\<close>

text \<open>
  The four \<open>Dense(d_model)\<close> layers own a kernel and a bias each; the framework creates
  them, the optimizer trains them, and the model takes them as given. The framework's
  own constructors are taken not to fail.
\<close>

record Dense =
  kernel :: mat
  bias :: vec

record MultiHeadAttention =
  num_heads :: int
  d_model :: int
  depth :: int
  wq :: Dense
  wk :: Dense
  wv :: Dense
  dense :: Dense

text \<open>
  \<open>__init__\<close>: \<open>assert d_model % self.num_heads == 0\<close>, then
  \<open>self.depth = d_model // self.num_heads\<close>. Python's \<open>%\<close> raises
  ZeroDivisionError on a zero divisor before the assertion compares anything; on
  integers \<open>%\<close> and \<open>//\<close> round towards minus infinity, as \<open>mod\<close> and \<open>div\<close> on
  \<open>int\<close> do.
\<close>

definition MultiHeadAttention_init ::
  "int \<Rightarrow> int \<Rightarrow> Dense \<Rightarrow> Dense \<Rightarrow> Dense \<Rightarrow> Dense \<Rightarrow> py_error + MultiHeadAttention" where
  "MultiHeadAttention_init dm nh q_proj k_proj v_proj out_proj =
     (if nh = 0 then Inl ZeroDivisionError
      else if dm mod nh \<noteq> 0 then Inl AssertionError
      else Inr \<lparr>num_heads = nh, d_model = dm, depth = dm div nh,
                wq = q_proj, wk = k_proj, wv = v_proj, dense = out_proj\<rparr>)"

subsection \<open>Embedding lookup and the positional index tensor\<close>

text \<open>\<open>tf.range(n)\<close>, \<open>tf.expand_dims(r, 0)\<close> and \<open>tf.tile(m, [a, b])\<close> on a matrix.\<close>

definition tf_range :: "nat \<Rightarrow> int list" where
  "tf_range n = map int [0..<n]"

definition expand_dims0 :: "'a \<Rightarrow> 'a list" where
  "expand_dims0 r = [r]"

definition tf_tile :: "'a list list \<Rightarrow> nat \<Rightarrow> nat \<Rightarrow> 'a list list" where
  "tf_tile m a b = concat (replicate a (map (\<lambda>r. concat (replicate b r)) m))"

text \<open>
  \<open>x_pos = tf.tile(tf.expand_dims(tf.range(tf.shape(x)[1]), 0), [tf.shape(x)[0], 1])\<close>
  for an embedded batch of \<open>batch\<close> rows and \<open>seq_len\<close> positions.
\<close>

definition x_pos :: "nat \<Rightarrow> nat \<Rightarrow> int list list" where
  "x_pos batch seq_len = tf_tile (expand_dims0 (tf_range seq_len)) batch 1"

text \<open>
  An embedding layer gathers rows of its table. An index outside the table is an
  invalid-argument error of the gather kernel. The options \<open>mask_zero\<close> and
  \<open>embeddings_regularizer\<close> do not change the rows returned.
\<close>

definition in_table :: "mat \<Rightarrow> int \<Rightarrow> bool" where
  "in_table table i = (0 \<le> i \<and> i < int (length table))"

definition Embedding_call :: "mat \<Rightarrow> int list list \<Rightarrow> py_error + tensor3" where
  "Embedding_call table ids =
     (if list_all (list_all (in_table table)) ids
      then Inr (map (map (\<lambda>i. table ! nat i)) ids)
      else Inl InvalidArgumentError)"

subsection \<open>Framework operators on the last two axes\<close>

definition dot :: "vec \<Rightarrow> vec \<Rightarrow> real" where
  "dot u w = sum_list (map2 (*) u w)"

text \<open>\<open>a \<sqdot> b\<close> and \<open>a \<sqdot> b\<^sup>T\<close> of two matrices.\<close>

definition matmul2 :: "mat \<Rightarrow> mat \<Rightarrow> mat" where
  "matmul2 a b = map (\<lambda>r. map (\<lambda>j. dot r (map (\<lambda>row. row ! j) b)) [0..<ncols b]) a"

definition matmul2_tb :: "mat \<Rightarrow> mat \<Rightarrow> mat" where
  "matmul2_tb a b = map (\<lambda>r. map (dot r) b) a"

text \<open>
  \<open>tf.matmul(a, b, transpose_b)\<close> on rank-4 tensors: the two leading axes are batch
  axes, the product is taken slice by slice.
\<close>

definition tf_matmul :: "tensor4 \<Rightarrow> tensor4 \<Rightarrow> bool \<Rightarrow> tensor4" where
  "tf_matmul a b transpose_b =
     map2 (map2 (\<lambda>x y. if transpose_b then matmul2_tb x y else matmul2 x y)) a b"

text \<open>\<open>tf.shape(t)[-1]\<close> of a rank-4 tensor that has a row.\<close>

definition last_dim :: "tensor4 \<Rightarrow> nat" where
  "last_dim t = ncols (concat (concat t))"

definition div_scalar :: "tensor4 \<Rightarrow> real \<Rightarrow> tensor4" where
  "div_scalar t c = map (map (map (map (\<lambda>x. x / c)))) t"

definition mul_scalar :: "tensor4 \<Rightarrow> real \<Rightarrow> tensor4" where
  "mul_scalar t c = map (map (map (map (\<lambda>x. x * c)))) t"

definition mul_scalar3 :: "tensor3 \<Rightarrow> real \<Rightarrow> tensor3" where
  "mul_scalar3 t c = map (map (map (\<lambda>x. x * c))) t"

text \<open>
  Addition with broadcasting of the second operand: an axis of size 1 is repeated along
  the first operand's axis. An operand of lower rank is written with leading axes of
  size 1, which is how the framework aligns it.
\<close>

definition bcast :: "nat \<Rightarrow> 'a list \<Rightarrow> 'a list" where
  "bcast n xs = (case xs of [x] \<Rightarrow> replicate n x | _ \<Rightarrow> xs)"

definition add1 :: "vec \<Rightarrow> vec \<Rightarrow> vec" where
  "add1 a m = map2 (+) a (bcast (length a) m)"

definition add2 :: "mat \<Rightarrow> mat \<Rightarrow> mat" where
  "add2 a m = map2 add1 a (bcast (length a) m)"

definition add3 :: "tensor3 \<Rightarrow> tensor3 \<Rightarrow> tensor3" where
  "add3 a m = map2 add2 a (bcast (length a) m)"

definition add4 :: "tensor4 \<Rightarrow> tensor4 \<Rightarrow> tensor4" where
  "add4 a m = map2 add3 a (bcast (length a) m)"

text \<open>\<open>tf.nn.softmax(t, axis=-1)\<close>.\<close>

definition softmax :: "vec \<Rightarrow> vec" where
  "softmax xs = map (\<lambda>x. exp x / sum_list (map exp xs)) xs"

definition softmax_last :: "tensor4 \<Rightarrow> tensor4" where
  "softmax_last t = map (map (map softmax)) t"

subsection \<open>Scaled dot-product attention\<close>

text \<open>
  The function on rank-4 tensors over the reals, as multi-head attention calls it. This
  model carries the layout of the layers; the values the function computes in single
  precision are the subject of the model at any rank further down.
\<close>

definition scaled_dot_product_attention ::
  "tensor4 \<Rightarrow> tensor4 \<Rightarrow> tensor4 \<Rightarrow> tensor4 option \<Rightarrow> tensor4 \<times> tensor4" where
  "scaled_dot_product_attention q k v msk =
     (let matmul_qk = tf_matmul q k True;
          dk = real (last_dim k);
          scaled_attention_logits = div_scalar matmul_qk (sqrt dk);
          scaled_attention_logits =
            (case msk of
               None \<Rightarrow> scaled_attention_logits
             | Some m \<Rightarrow> add4 scaled_attention_logits (mul_scalar m (- (10 ^ 9))));
          attention_weights = softmax_last scaled_attention_logits;
          output = tf_matmul attention_weights v False
      in (output, attention_weights))"

text \<open>
  The two values the variable \<open>scaled_attention_logits\<close> takes, named for the proofs:
  before and after the mask is added.
\<close>

definition scaled_logits :: "tensor4 \<Rightarrow> tensor4 \<Rightarrow> tensor4" where
  "scaled_logits q k = div_scalar (tf_matmul q k True) (sqrt (real (last_dim k)))"

definition masked_logits :: "tensor4 \<Rightarrow> tensor4 \<Rightarrow> tensor4 option \<Rightarrow> tensor4" where
  "masked_logits q k msk =
     (case msk of
        None \<Rightarrow> scaled_logits q k
      | Some t \<Rightarrow> add4 (scaled_logits q k) (mul_scalar t (- (10 ^ 9))))"

text \<open>\<open>bnth\<close> reads an axis that may be broadcast from size 1.\<close>

definition bnth :: "'a list \<Rightarrow> nat \<Rightarrow> 'a" where
  "bnth xs i = (if length xs = 1 then xs ! 0 else xs ! i)"

text \<open>A mask that broadcasts to \<open>(b, h, n, m)\<close>: every axis has the full size or size 1.\<close>

definition bsize :: "nat \<Rightarrow> 'a list \<Rightarrow> bool" where
  "bsize n xs = (length xs = n \<or> length xs = 1)"

definition broadcastable :: "nat \<Rightarrow> nat \<Rightarrow> nat \<Rightarrow> nat \<Rightarrow> tensor4 \<Rightarrow> bool" where
  "broadcastable b h n m t =
     (bsize b t \<and> list_all (\<lambda>x. bsize h x \<and> list_all (\<lambda>y. bsize n y \<and> list_all (bsize m) y) x) t)"

definition mask_ok :: "nat \<Rightarrow> nat \<Rightarrow> nat \<Rightarrow> nat \<Rightarrow> tensor4 option \<Rightarrow> bool" where
  "mask_ok b h n m msk = (case msk of None \<Rightarrow> True | Some t \<Rightarrow> broadcastable b h n m t)"

subsection \<open>Multi-head attention: the call\<close>

text \<open>\<open>Dense(units)\<close> on a rank-3 input: \<open>x \<sqdot> kernel + bias\<close> on the last axis.\<close>

definition Dense_call :: "Dense \<Rightarrow> tensor3 \<Rightarrow> tensor3" where
  "Dense_call l x = map (\<lambda>m. map (\<lambda>r. map2 (+) r (bias l)) (matmul2 m (kernel l))) x"

text \<open>
  \<open>tf.reshape\<close> keeps the row-major order of the entries. \<open>chunks n xs\<close> cuts a flat
  list into consecutive pieces of length \<open>n\<close>; the axis written \<open>-1\<close> takes whatever
  size the entry count leaves.
\<close>

definition chunks :: "nat \<Rightarrow> 'a list \<Rightarrow> 'a list list" where
  "chunks n xs = map (\<lambda>i. take n (drop (i * n) xs)) [0..<length xs div n]"

text \<open>\<open>tf.reshape(x, (batch_size, -1, num_heads, depth))\<close> of a rank-3 tensor.\<close>

definition reshape_heads :: "tensor3 \<Rightarrow> nat \<Rightarrow> nat \<Rightarrow> nat \<Rightarrow> tensor4" where
  "reshape_heads x batch_size nh dp =
     (let flat = concat (concat x)
      in map (\<lambda>e. map (chunks dp) (chunks (nh * dp) e))
           (chunks (length flat div batch_size) flat))"

text \<open>\<open>tf.reshape(x, (batch_size, -1, d_model))\<close> of a rank-4 tensor.\<close>

definition reshape_model :: "tensor4 \<Rightarrow> nat \<Rightarrow> nat \<Rightarrow> tensor3" where
  "reshape_model x batch_size dm =
     (let flat = concat (concat (concat x))
      in map (chunks dm) (chunks (length flat div batch_size) flat))"

text \<open>\<open>tf.transpose(x, perm=[0, 2, 1, 3])\<close>: the second and third axes change places.\<close>

definition transpose_0213 :: "tensor4 \<Rightarrow> tensor4" where
  "transpose_0213 t = map (\<lambda>e. map (\<lambda>j. map (\<lambda>r. r ! j) e) [0..<ncols e]) t"

definition split_heads :: "MultiHeadAttention \<Rightarrow> tensor3 \<Rightarrow> nat \<Rightarrow> tensor4" where
  "split_heads l x batch_size =
     (let x = reshape_heads x batch_size (nat (num_heads l)) (nat (depth l))
      in transpose_0213 x)"

definition MultiHeadAttention_call ::
  "MultiHeadAttention \<Rightarrow> tensor3 \<Rightarrow> tensor3 \<Rightarrow> tensor3 \<Rightarrow> tensor4 option \<Rightarrow> tensor3 \<times> tensor4" where
  "MultiHeadAttention_call l v k q msk =
     (let batch_size = length q;
          q = Dense_call (wq l) q;
          k = Dense_call (wk l) k;
          v = Dense_call (wv l) v;
          q = split_heads l q batch_size;
          k = split_heads l k batch_size;
          v = split_heads l v batch_size;
          (scaled_attention, attention_weights) = scaled_dot_product_attention q k v msk;
          scaled_attention = transpose_0213 scaled_attention;
          concat_attention = reshape_model scaled_attention batch_size (nat (d_model l));
          output = Dense_call (dense l) concat_attention
      in (output, attention_weights))"

text \<open>
  The specification's wording: split the feature axis into heads, with the head axis
  before the sequence axis; attend; put the heads of each position side by side again;
  project.
\<close>

definition heads_spec :: "nat \<Rightarrow> nat \<Rightarrow> tensor3 \<Rightarrow> tensor4" where
  "heads_spec nh dp x =
     map (\<lambda>m. map (\<lambda>h. map (\<lambda>r. take dp (drop (h * dp) r)) m) [0..<nh]) x"

definition merge_spec :: "tensor4 \<Rightarrow> tensor3" where
  "merge_spec a = map (\<lambda>e. map (\<lambda>s. concat (map (\<lambda>hd_rows. hd_rows ! s) e)) [0..<ncols e]) a"

definition MultiHeadAttention_spec ::
  "MultiHeadAttention \<Rightarrow> tensor3 \<Rightarrow> tensor3 \<Rightarrow> tensor3 \<Rightarrow> tensor4 option \<Rightarrow> tensor3 \<times> tensor4" where
  "MultiHeadAttention_spec l v k q msk =
     (let nh = nat (num_heads l); dp = nat (depth l);
          att = scaled_dot_product_attention
                  (heads_spec nh dp (Dense_call (wq l) q))
                  (heads_spec nh dp (Dense_call (wk l) k))
                  (heads_spec nh dp (Dense_call (wv l) v)) msk
      in (Dense_call (dense l) (merge_spec (fst att)), snd att))"

text \<open>
  A layer as \<open>__init__\<close> leaves it and as its first call builds it, for queries, keys
  and values of feature widths \<open>dq\<close>, \<open>dk\<close> and \<open>dv\<close>: a positive head count and
  depth whose product is \<open>d_model\<close>, and kernels and biases of the widths the
  \<open>Dense(d_model)\<close> layers have.
\<close>

definition dense_ok :: "nat \<Rightarrow> nat \<Rightarrow> Dense \<Rightarrow> bool" where
  "dense_ok d_in units l = (0 < d_in \<and> shape2 d_in units (kernel l) \<and> length (bias l) = units)"

definition mha_ok :: "nat \<Rightarrow> nat \<Rightarrow> nat \<Rightarrow> MultiHeadAttention \<Rightarrow> bool" where
  "mha_ok dq dk dv l =
     (0 < num_heads l \<and> 0 < depth l \<and> d_model l = num_heads l * depth l
      \<and> dense_ok dq (nat (d_model l)) (wq l)
      \<and> dense_ok dk (nat (d_model l)) (wk l)
      \<and> dense_ok dv (nat (d_model l)) (wv l)
      \<and> dense_ok (nat (d_model l)) (nat (d_model l)) (dense l))"

subsection \<open>Dropout\<close>

text \<open>
  \<open>Dropout(rate)\<close> draws, in training, a fresh keep/drop decision for every entry; the
  draw is an argument of the model, indexed by the entry's position. Kept entries are
  scaled by \<open>1 / (1 - rate)\<close>. Outside training the layer returns its input.
\<close>

type_synonym noise = "nat \<Rightarrow> nat \<Rightarrow> nat \<Rightarrow> bool"

definition Dropout_call :: "real \<Rightarrow> noise \<Rightarrow> tensor3 \<Rightarrow> bool \<Rightarrow> tensor3" where
  "Dropout_call rate keep x training =
     (if training
      then map (\<lambda>(b, m). map (\<lambda>(s, r). map (\<lambda>(f, y). if keep b s f then y / (1 - rate) else 0)
                 (enumerate 0 r)) (enumerate 0 m)) (enumerate 0 x)
      else x)"

subsection \<open>Point-wise feed-forward network\<close>

text \<open>
  \<open>Conv1D(filters, kernel_size, activation='relu')\<close> with the default stride 1 and
  \<open>valid\<close> padding: output position \<open>s\<close> sees the input positions
  \<open>s, ..., s + kernel_size - 1\<close>. The kernel has shape
  \<open>(kernel_size, in_channels, filters)\<close>.
\<close>

record Conv1D =
  kernel_size :: nat
  conv_kernel :: "mat list"
  conv_bias :: vec

definition relu :: "real \<Rightarrow> real" where
  "relu y = max y 0"

definition conv_at :: "Conv1D \<Rightarrow> mat \<Rightarrow> nat \<Rightarrow> vec" where
  "conv_at c m s =
     map (\<lambda>ch. relu (sum_list (map (\<lambda>t. dot (m ! (s + t)) (map (\<lambda>row. row ! ch) (conv_kernel c ! t)))
                                  [0..<kernel_size c])
                      + conv_bias c ! ch))
       [0..<length (conv_bias c)]"

definition Conv1D_call :: "Conv1D \<Rightarrow> tensor3 \<Rightarrow> tensor3" where
  "Conv1D_call c x = map (\<lambda>m. map (conv_at c m) [0..<length m + 1 - kernel_size c]) x"

record PointWiseFFN =
  conv1d_1 :: Conv1D
  conv1d_2 :: Conv1D
  dropout :: real

definition PointWiseFFN_init :: "real \<Rightarrow> mat \<Rightarrow> vec \<Rightarrow> mat \<Rightarrow> vec \<Rightarrow> PointWiseFFN" where
  "PointWiseFFN_init rate k1 b1 k2 b2 =
     \<lparr>conv1d_1 = \<lparr>kernel_size = 1, conv_kernel = [k1], conv_bias = b1\<rparr>,
      conv1d_2 = \<lparr>kernel_size = 1, conv_kernel = [k2], conv_bias = b2\<rparr>,
      dropout = rate\<rparr>"

definition PointWiseFFN_call :: "PointWiseFFN \<Rightarrow> tensor3 \<Rightarrow> bool \<Rightarrow> noise \<Rightarrow> tensor3" where
  "PointWiseFFN_call l x training keep =
     (let out = Conv1D_call (conv1d_1 l) x;
          out = Dropout_call (dropout l) keep out training;
          out = Conv1D_call (conv1d_2 l) out
      in out)"

text \<open>
  The specification's wording for one sequence position: a projection with its
  nonlinearity, dropout in training only, a second projection with its nonlinearity.
\<close>

definition project_relu :: "Conv1D \<Rightarrow> vec \<Rightarrow> vec" where
  "project_relu c r =
     map (\<lambda>ch. relu (dot r (map (\<lambda>row. row ! ch) (conv_kernel c ! 0)) + conv_bias c ! ch))
       [0..<length (conv_bias c)]"

definition dropout_row :: "real \<Rightarrow> (nat \<Rightarrow> bool) \<Rightarrow> bool \<Rightarrow> vec \<Rightarrow> vec" where
  "dropout_row rate keep training r =
     (if training then map (\<lambda>f. if keep f then r ! f / (1 - rate) else 0) [0..<length r] else r)"

definition ffn_position :: "PointWiseFFN \<Rightarrow> bool \<Rightarrow> (nat \<Rightarrow> bool) \<Rightarrow> vec \<Rightarrow> vec" where
  "ffn_position l training keep r =
     project_relu (conv1d_2 l) (dropout_row (dropout l) keep training (project_relu (conv1d_1 l) r))"

definition ffn_ok :: "nat \<Rightarrow> PointWiseFFN \<Rightarrow> bool" where
  "ffn_ok dm l =
     (kernel_size (conv1d_1 l) = 1 \<and> kernel_size (conv1d_2 l) = 1
      \<and> length (conv_bias (conv1d_1 l)) = dm \<and> length (conv_bias (conv1d_2 l)) = dm)"

subsection \<open>Encoder layer\<close>

text \<open>
  \<open>LayerNormalization(epsilon)\<close> normalises every feature row to mean 0 and variance 1,
  then applies the learned scale and offset.
\<close>

record LayerNormalization =
  gamma :: vec
  beta :: vec
  epsilon :: real

definition mean :: "vec \<Rightarrow> real" where
  "mean r = sum_list r / real (length r)"

definition variance :: "vec \<Rightarrow> real" where
  "variance r = sum_list (map (\<lambda>y. (y - mean r)\<^sup>2) r) / real (length r)"

definition normalize_row :: "LayerNormalization \<Rightarrow> vec \<Rightarrow> vec" where
  "normalize_row nrm r =
     map (\<lambda>(y, g, b). (y - mean r) / sqrt (variance r + epsilon nrm) * g + b)
       (zip r (zip (gamma nrm) (beta nrm)))"

definition LayerNormalization_call :: "LayerNormalization \<Rightarrow> tensor3 \<Rightarrow> tensor3" where
  "LayerNormalization_call nrm x = map (map (normalize_row nrm)) x"

record SASEncoderLayer =
  mha :: MultiHeadAttention
  ffn :: PointWiseFFN
  layernorm1 :: LayerNormalization
  layernorm2 :: LayerNormalization
  dropout1 :: real
  dropout2 :: real

text \<open>The draws of the three dropout layers one encoder-layer call goes through.\<close>

record layer_noise =
  noise1 :: noise
  noise_ffn :: noise
  noise2 :: noise

definition SASEncoderLayer_call ::
  "SASEncoderLayer \<Rightarrow> tensor3 \<Rightarrow> bool \<Rightarrow> tensor4 option \<Rightarrow> layer_noise \<Rightarrow> tensor3" where
  "SASEncoderLayer_call l x training msk rng =
     (let (attn_output, _) = MultiHeadAttention_call (mha l) x x x msk;
          attn_output = Dropout_call (dropout1 l) (noise1 rng) attn_output training;
          out1 = LayerNormalization_call (layernorm1 l) (add3 x attn_output);
          ffn_output = PointWiseFFN_call (ffn l) out1 training (noise_ffn rng);
          ffn_output = Dropout_call (dropout2 l) (noise2 rng) ffn_output training;
          out2 = LayerNormalization_call (layernorm2 l) (add3 out1 ffn_output)
      in out2)"

text \<open>The six steps of the specification, one definition each.\<close>

definition attention_step :: "SASEncoderLayer \<Rightarrow> tensor4 option \<Rightarrow> tensor3 \<Rightarrow> tensor3" where
  "attention_step l msk x = fst (MultiHeadAttention_call (mha l) x x x msk)"

definition residual_norm :: "LayerNormalization \<Rightarrow> tensor3 \<Rightarrow> tensor3 \<Rightarrow> tensor3" where
  "residual_norm nrm x y = LayerNormalization_call nrm (add3 x y)"

definition SASEncoderLayer_spec ::
  "SASEncoderLayer \<Rightarrow> tensor3 \<Rightarrow> bool \<Rightarrow> tensor4 option \<Rightarrow> layer_noise \<Rightarrow> tensor3" where
  "SASEncoderLayer_spec l x training msk rng =
     (let normed_attention =
            residual_norm (layernorm1 l) x
              (Dropout_call (dropout1 l) (noise1 rng) (attention_step l msk x) training)
      in residual_norm (layernorm2 l) normed_attention
           (Dropout_call (dropout2 l) (noise2 rng)
              (PointWiseFFN_call (ffn l) normed_attention training (noise_ffn rng)) training))"

definition norm_ok :: "nat \<Rightarrow> LayerNormalization \<Rightarrow> bool" where
  "norm_ok dm nrm = (length (gamma nrm) = dm \<and> length (beta nrm) = dm)"

definition layer_ok :: "nat \<Rightarrow> SASEncoderLayer \<Rightarrow> bool" where
  "layer_ok dm l =
     (mha_ok dm dm dm (mha l) \<and> nat (d_model (mha l)) = dm \<and> ffn_ok dm (ffn l)
      \<and> norm_ok dm (layernorm1 l) \<and> norm_ok dm (layernorm2 l))"

subsection \<open>Encoder\<close>

record SASEncoder =
  enc_d_model :: int
  num_layers :: int
  embedding :: mat
  pos_embedding :: mat
  enc_layers :: "SASEncoderLayer list"
  enc_dropout :: real

text \<open>
  \<open>__init__\<close> builds \<open>enc_layers\<close> with one layer for each index of
  \<open>range(num_layers)\<close>; \<open>layer_of i\<close> stands for the parameters of the \<open>i\<close>-th one.
\<close>

definition SASEncoder_init ::
  "int \<Rightarrow> int \<Rightarrow> mat \<Rightarrow> mat \<Rightarrow> (nat \<Rightarrow> SASEncoderLayer) \<Rightarrow> real \<Rightarrow> SASEncoder" where
  "SASEncoder_init nl dm token_table pos_table layer_of rate =
     \<lparr>enc_d_model = dm, num_layers = nl, embedding = token_table, pos_embedding = pos_table,
      enc_layers = map layer_of [0..<nat nl], enc_dropout = rate\<rparr>"

record encoder_noise =
  noise0 :: noise
  layer_noises :: "nat \<Rightarrow> layer_noise"

text \<open>The loop \<open>for i in range(self.num_layers): x = self.enc_layers[i](x, training, mask)\<close>.\<close>

definition run_layers ::
  "SASEncoder \<Rightarrow> bool \<Rightarrow> tensor4 option \<Rightarrow> (nat \<Rightarrow> layer_noise) \<Rightarrow> tensor3 \<Rightarrow> tensor3" where
  "run_layers e training msk rngs x =
     foldl (\<lambda>x i. SASEncoderLayer_call (enc_layers e ! i) x training msk (rngs i)) x
       [0..<nat (num_layers e)]"

definition SASEncoder_call ::
  "SASEncoder \<Rightarrow> int list list \<Rightarrow> bool \<Rightarrow> tensor4 option \<Rightarrow> encoder_noise \<Rightarrow> py_error + tensor3" where
  "SASEncoder_call e x training msk rng =
     (case Embedding_call (embedding e) x of
        Inl err \<Rightarrow> Inl err
      | Inr x \<Rightarrow>
          (let x = mul_scalar3 x (sqrt (real_of_int (enc_d_model e)));
               xp = x_pos (length x) (ncols x)
           in case Embedding_call (pos_embedding e) xp of
                Inl err \<Rightarrow> Inl err
              | Inr pos \<Rightarrow>
                  (let x = add3 x pos;
                       x = Dropout_call (enc_dropout e) (noise0 rng) x training
                   in Inr (run_layers e training msk (layer_noises rng) x))))"

text \<open>
  The specification's wording of the stage before the stack: embedding, scaling,
  positions \<open>0, ..., seq_len - 1\<close> for every batch row, dropout.
\<close>

definition embedding_stage ::
  "SASEncoder \<Rightarrow> int list list \<Rightarrow> bool \<Rightarrow> noise \<Rightarrow> tensor3" where
  "embedding_stage e x training keep =
     Dropout_call (enc_dropout e) keep
       (map (\<lambda>ids. map (\<lambda>(p, i). map2 (+) (map (\<lambda>y. y * sqrt (real_of_int (enc_d_model e)))
                                                  (embedding e ! nat i))
                                            (pos_embedding e ! p))
                     (enumerate 0 ids)) x)
       training"

fun layer_stack ::
  "SASEncoderLayer list \<Rightarrow> nat \<Rightarrow> bool \<Rightarrow> tensor4 option \<Rightarrow> (nat \<Rightarrow> layer_noise) \<Rightarrow> tensor3 \<Rightarrow> tensor3" where
  "layer_stack [] i training msk rngs x = x"
| "layer_stack (l # ls) i training msk rngs x =
     layer_stack ls (Suc i) training msk rngs (SASEncoderLayer_call l x training msk (rngs i))"

definition encoder_ok :: "nat \<Rightarrow> SASEncoder \<Rightarrow> bool" where
  "encoder_ok dm e =
     (length (enc_layers e) = nat (num_layers e) \<and> nat (enc_d_model e) = dm
      \<and> list_all (layer_ok dm) (enc_layers e)
      \<and> list_all (shape1 dm) (embedding e) \<and> list_all (shape1 dm) (pos_embedding e))"

subsection \<open>Sample parameters\<close>

text \<open>
  A two-head attention layer of width 2, an encoder layer around it and encoders of any
  depth stacked from it; a look-ahead mask for two positions; dropout draws.
\<close>

definition sample_dense :: Dense where
  "sample_dense = \<lparr>kernel = [[1, 0], [0, 1]], bias = [0, 0]\<rparr>"

definition sample_mha :: MultiHeadAttention where
  "sample_mha = \<lparr>num_heads = 2, d_model = 2, depth = 1, wq = sample_dense, wk = sample_dense,
     wv = sample_dense, dense = sample_dense\<rparr>"

definition sample_norm :: LayerNormalization where
  "sample_norm = \<lparr>gamma = [1, 1], beta = [0, 0], epsilon = 1 / 10 ^ 6\<rparr>"

definition sample_layer :: SASEncoderLayer where
  "sample_layer = \<lparr>mha = sample_mha,
     ffn = PointWiseFFN_init (1 / 10) [[1, 0], [0, 1]] [0, 0] [[1, 0], [0, 1]] [0, 0],
     layernorm1 = sample_norm, layernorm2 = sample_norm, dropout1 = 1 / 10, dropout2 = 1 / 10\<rparr>"

definition sample_encoder :: "int \<Rightarrow> SASEncoder" where
  "sample_encoder nl =
     SASEncoder_init nl 2 [[0, 0], [1, 0], [0, 1]] [[0, 0], [1, 1]] (\<lambda>i. sample_layer) (1 / 10)"

definition sample_noise :: encoder_noise where
  "sample_noise = \<lparr>noise0 = \<lambda>b s f. True,
     layer_noises = \<lambda>i. \<lparr>noise1 = \<lambda>b s f. True, noise_ffn = \<lambda>b s f. even f,
                            noise2 = \<lambda>b s f. True\<rparr>\<rparr>"

definition sample_mask :: "tensor4 option" where
  "sample_mask = Some [[[[0, 1], [0, 0]]]]"

subsection \<open>Scaled dot-product attention at any rank and in any arithmetic\<close>

text \<open>
  \<open>scaled_dot_product_attention\<close> accepts tensors of any shape \<open>(..., seq_len, depth)\<close> and
  computes in the element type of its arguments, which is \<open>float32\<close> in this program. The
  model of this subsection follows the same source lines over tensors of any rank, a
  matrix or a batch of tensors, and over the element kernels of the framework, which are
  parameters: the dot product inside \<open>tf.matmul\<close>, the row operation of \<open>tf.nn.softmax\<close>,
  the element-wise \<open>+\<close>, \<open>*\<close> and \<open>/\<close>, \<open>tf.math.sqrt\<close>, the \<open>tf.cast\<close> of a size to the
  element type and the conversion of a Python float constant to it. Nothing is assumed
  of the kernels, so what is proved of this model holds of the rounding kernels as well
  as of exact ones.
\<close>

datatype 'a tensor = Mat "'a list list" | Batch "'a tensor list"

record 'a kernels =
  kdot :: "'a list \<Rightarrow> 'a list \<Rightarrow> 'a"
  ksoftmax :: "'a list \<Rightarrow> 'a list"
  kadd :: "'a \<Rightarrow> 'a \<Rightarrow> 'a"
  kmul :: "'a \<Rightarrow> 'a \<Rightarrow> 'a"
  kdiv :: "'a \<Rightarrow> 'a \<Rightarrow> 'a"
  ksqrt :: "'a \<Rightarrow> 'a"
  kcast :: "nat \<Rightarrow> 'a"
  kconst :: "real \<Rightarrow> 'a"

text \<open>The rank of a tensor and \<open>tf.shape(t)[-1]\<close>, read along the first entries.\<close>

primrec rank :: "'a tensor \<Rightarrow> nat" where
  "rank (Mat a) = 2"
| "rank (Batch ts) = Suc (case map rank ts of [] \<Rightarrow> 2 | r # _ \<Rightarrow> r)"

primrec last_axis :: "'a tensor \<Rightarrow> nat" where
  "last_axis (Mat a) = ncols a"
| "last_axis (Batch ts) = (case map last_axis ts of [] \<Rightarrow> 0 | n # _ \<Rightarrow> n)"

text \<open>An operator on the rows of the innermost matrices (\<open>axis=-1\<close>).\<close>

primrec on_rows :: "('a list \<Rightarrow> 'a list) \<Rightarrow> 'a tensor \<Rightarrow> 'a tensor" where
  "on_rows f (Mat a) = Mat (map f a)"
| "on_rows f (Batch ts) = Batch (map (on_rows f) ts)"

text \<open>
  \<open>tf.matmul\<close> multiplies the innermost matrices slice by slice; a matrix on one side is
  used for every slice of the other side.
\<close>

primrec mat_with :: "('a list list \<Rightarrow> 'a list list \<Rightarrow> 'a list list) \<Rightarrow> 'a list list \<Rightarrow> 'a tensor \<Rightarrow> 'a tensor" where
  "mat_with f a (Mat b) = Mat (f a b)"
| "mat_with f a (Batch bs) = Batch (map (mat_with f a) bs)"

primrec zip_mats ::
  "('a list list \<Rightarrow> 'a list list \<Rightarrow> 'a list list) \<Rightarrow> 'a tensor \<Rightarrow> 'a tensor \<Rightarrow> 'a tensor" where
  "zip_mats f (Mat a) = mat_with f a"
| "zip_mats f (Batch ts) =
     (\<lambda>y. case y of
            Mat b \<Rightarrow> Batch (map (\<lambda>g. g (Mat b)) (map (zip_mats f) ts))
          | Batch bs \<Rightarrow> Batch (map2 (\<lambda>g b. g b) (map (zip_mats f) ts) bs))"

definition matmul_k :: "'a kernels \<Rightarrow> 'a list list \<Rightarrow> 'a list list \<Rightarrow> 'a list list" where
  "matmul_k K a b = map (\<lambda>r. map (\<lambda>j. kdot K r (map (\<lambda>row. row ! j) b)) [0..<ncols b]) a"

definition matmul_tb_k :: "'a kernels \<Rightarrow> 'a list list \<Rightarrow> 'a list list \<Rightarrow> 'a list list" where
  "matmul_tb_k K a b = map (\<lambda>r. map (kdot K r) b) a"

definition tf_matmul_on :: "'a kernels \<Rightarrow> 'a tensor \<Rightarrow> 'a tensor \<Rightarrow> bool \<Rightarrow> 'a tensor" where
  "tf_matmul_on K a b transpose_b =
     zip_mats (if transpose_b then matmul_tb_k K else matmul_k K) a b"

text \<open>
  The broadcasting \<open>+\<close> of the logits and a mask of the same or a lower rank: an axis of
  size 1 of the mask is repeated, missing leading axes are added.
\<close>

definition add_rows :: "'a kernels \<Rightarrow> 'a list list \<Rightarrow> 'a list list \<Rightarrow> 'a list list" where
  "add_rows K a m =
     map2 (\<lambda>r mr. map2 (kadd K) r (bcast (length r) mr)) a (bcast (length a) m)"

primrec add_up :: "'a kernels \<Rightarrow> 'a list list \<Rightarrow> 'a tensor \<Rightarrow> 'a tensor" where
  "add_up K a (Mat b) = Mat (add_rows K a b)"
| "add_up K a (Batch ms) = Batch (map (add_up K a) ms)"

primrec bc_add :: "'a kernels \<Rightarrow> 'a tensor \<Rightarrow> 'a tensor \<Rightarrow> 'a tensor" where
  "bc_add K (Mat a) = add_up K a"
| "bc_add K (Batch ts) =
     (\<lambda>m. if rank m < rank (Batch ts) then Batch (map (\<lambda>g. g m) (map (bc_add K) ts))
          else case m of
                 Mat b \<Rightarrow> Batch (map (\<lambda>g. g (Mat b)) (map (bc_add K) ts))
               | Batch ms \<Rightarrow>
                   Batch (map2 (\<lambda>g x. g x) (map (bc_add K) ts) (bcast (length ts) ms)))"

definition scaled_dot_product_attention_on ::
  "'a kernels \<Rightarrow> 'a tensor \<Rightarrow> 'a tensor \<Rightarrow> 'a tensor \<Rightarrow> 'a tensor option \<Rightarrow> 'a tensor \<times> 'a tensor" where
  "scaled_dot_product_attention_on K q k v msk =
     (let matmul_qk = tf_matmul_on K q k True;
          dk = kcast K (last_axis k);
          scaled_attention_logits = map_tensor (\<lambda>x. kdiv K x (ksqrt K dk)) matmul_qk;
          scaled_attention_logits =
            (case msk of
               None \<Rightarrow> scaled_attention_logits
             | Some m \<Rightarrow>
                 bc_add K scaled_attention_logits (map_tensor (\<lambda>x. kmul K x (kconst K (- (10 ^ 9)))) m));
          attention_weights = on_rows (ksoftmax K) scaled_attention_logits;
          output = tf_matmul_on K attention_weights v False
      in (output, attention_weights))"

text \<open>
  Shapes and indexing. \<open>shaped ds n d t\<close>: the tensor \<open>t\<close> has the batch axes \<open>ds\<close> and
  innermost matrices of \<open>n\<close> rows and \<open>d\<close> columns. \<open>slice idx t\<close> is the innermost matrix
  at the batch index \<open>idx\<close>; \<open>mask_slice idx m\<close> is the matrix of a broadcast mask that
  meets it; \<open>mask_fits ds n m t\<close>: the mask \<open>t\<close> broadcasts to \<open>ds @ [n, m]\<close>.
\<close>

primrec shaped :: "nat list \<Rightarrow> nat \<Rightarrow> nat \<Rightarrow> 'a tensor \<Rightarrow> bool" where
  "shaped [] = (\<lambda>n d t. case t of Mat a \<Rightarrow> shape2 n d a | Batch _ \<Rightarrow> False)"
| "shaped (b # bs) =
     (\<lambda>n d t. case t of Mat _ \<Rightarrow> False
                      | Batch ts \<Rightarrow> length ts = b \<and> list_all (shaped bs n d) ts)"

primrec slice :: "nat list \<Rightarrow> 'a tensor \<Rightarrow> 'a list list" where
  "slice [] = (\<lambda>t. case t of Mat a \<Rightarrow> a | Batch _ \<Rightarrow> [])"
| "slice (i # is) = (\<lambda>t. case t of Mat _ \<Rightarrow> [] | Batch ts \<Rightarrow> slice is (ts ! i))"

primrec mask_slice :: "nat list \<Rightarrow> 'a tensor \<Rightarrow> 'a list list" where
  "mask_slice [] = (\<lambda>m. case m of Mat b \<Rightarrow> b | Batch _ \<Rightarrow> [])"
| "mask_slice (i # is) =
     (\<lambda>m. if rank m < length is + 3 then mask_slice is m
          else case m of Mat b \<Rightarrow> b | Batch ms \<Rightarrow> mask_slice is (bnth ms i))"

primrec mask_fits :: "nat list \<Rightarrow> nat \<Rightarrow> nat \<Rightarrow> 'a tensor \<Rightarrow> bool" where
  "mask_fits [] = (\<lambda>n m t. case t of Mat b \<Rightarrow> bsize n b \<and> list_all (bsize m) b | Batch _ \<Rightarrow> False)"
| "mask_fits (d # ds) =
     (\<lambda>n m t. if rank t < length ds + 3 then mask_fits ds n m t
             else case t of Mat _ \<Rightarrow> False
                          | Batch ms \<Rightarrow> bsize d ms \<and> list_all (mask_fits ds n m) ms)"

definition inside :: "nat list \<Rightarrow> nat list \<Rightarrow> bool" where
  "inside ds idx = list_all2 (<) idx ds"

definition mask_ok_on :: "nat list \<Rightarrow> nat \<Rightarrow> nat \<Rightarrow> 'a tensor option \<Rightarrow> bool" where
  "mask_ok_on ds n m msk = (case msk of None \<Rightarrow> True | Some t \<Rightarrow> mask_fits ds n m t)"

text \<open>
  The specification's wording, entry by entry: the logit of query \<open>i\<close> and key \<open>j\<close> in the
  batch slice \<open>idx\<close> is the dot product of the two rows, divided by the square root of
  the depth, plus the mask entry times \<open>-1e9\<close> when a mask is supplied.
\<close>

definition logit_on ::
  "'a kernels \<Rightarrow> 'a tensor \<Rightarrow> 'a tensor \<Rightarrow> 'a tensor option \<Rightarrow> nat list \<Rightarrow> nat \<Rightarrow> nat \<Rightarrow> 'a" where
  "logit_on K q k msk idx i j =
     (let s = kdiv K (kdot K (slice idx q ! i) (slice idx k ! j))
                (ksqrt K (kcast K (length (slice idx k ! j))))
      in case msk of
           None \<Rightarrow> s
         | Some t \<Rightarrow> kadd K s (kmul K (bnth (bnth (mask_slice idx t) i) j) (kconst K (- (10 ^ 9)))))"

text \<open>The value of the variable \<open>scaled_attention_logits\<close> before the softmax.\<close>

definition logits_on :: "'a kernels \<Rightarrow> 'a tensor \<Rightarrow> 'a tensor \<Rightarrow> 'a tensor option \<Rightarrow> 'a tensor" where
  "logits_on K q k msk =
     (let scaled = map_tensor (\<lambda>x. kdiv K x (ksqrt K (kcast K (last_axis k))))
                     (tf_matmul_on K q k True)
      in case msk of
           None \<Rightarrow> scaled
         | Some m \<Rightarrow> bc_add K scaled (map_tensor (\<lambda>x. kmul K x (kconst K (- (10 ^ 9)))) m))"

text \<open>
  Exact arithmetic as one choice of kernels, and a rank-4 nested list as a tensor: with
  them the function at any rank is the function on rank-4 lists over the reals of the
  subsection before.
\<close>

definition exact_kernels :: "real kernels" where
  "exact_kernels =
     \<lparr>kdot = dot, ksoftmax = softmax, kadd = (+), kmul = (*), kdiv = (/),
      ksqrt = sqrt, kcast = real, kconst = (\<lambda>c. c)\<rparr>"

definition of_tensor4 :: "'a list list list list \<Rightarrow> 'a tensor" where
  "of_tensor4 t = Batch (map (\<lambda>x. Batch (map Mat x)) t)"

subsection \<open>Single-precision arithmetic\<close>

text \<open>
  A \<open>float32\<close> is a finite value, an infinity or a NaN; the two zeros are not told apart.
  \<open>rnd\<close> rounds a real number to the nearest value with a 24-bit significand, ties to the
  even significand, with gradual underflow below \<open>2^(-126)\<close> and overflow to an infinity
  when the rounded magnitude reaches \<open>2^128\<close>.
\<close>

datatype f32 = Fin real | PInf | NInf | NaN

definition round_even :: "real \<Rightarrow> int" where
  "round_even y =
     (let f = \<lfloor>y\<rfloor>
      in if y - of_int f < 1 / 2 then f
         else if 1 / 2 < y - of_int f then f + 1
         else if even f then f else f + 1)"

definition expo :: "real \<Rightarrow> int" where
  "expo x = max (- 126) \<lfloor>log 2 \<bar>x\<bar>\<rfloor>"

definition ulp :: "real \<Rightarrow> real" where
  "ulp x = 2 powr (of_int (expo x) - 23)"

definition near :: "real \<Rightarrow> real" where
  "near x = (if x = 0 then 0 else ulp x * of_int (round_even (x / ulp x)))"

definition rnd :: "real \<Rightarrow> f32" where
  "rnd x = (if 2 ^ 128 \<le> \<bar>near x\<bar> then (if 0 < x then PInf else NInf) else Fin (near x))"

text \<open>
  The element operations: the exact operation on finite values followed by one rounding,
  and the IEEE 754 rules on infinities and NaN. The exponential is taken as correctly
  rounded.
\<close>

fun fneg :: "f32 \<Rightarrow> f32" where
  "fneg (Fin a) = Fin (- a)"
| "fneg PInf = NInf"
| "fneg NInf = PInf"
| "fneg NaN = NaN"

fun fadd :: "f32 \<Rightarrow> f32 \<Rightarrow> f32" where
  "fadd (Fin a) (Fin b) = rnd (a + b)"
| "fadd NaN _ = NaN"
| "fadd _ NaN = NaN"
| "fadd PInf NInf = NaN"
| "fadd NInf PInf = NaN"
| "fadd PInf _ = PInf"
| "fadd _ PInf = PInf"
| "fadd NInf _ = NInf"
| "fadd _ NInf = NInf"

definition fsub :: "f32 \<Rightarrow> f32 \<Rightarrow> f32" where
  "fsub a b = fadd a (fneg b)"

fun fmul :: "f32 \<Rightarrow> f32 \<Rightarrow> f32" where
  "fmul (Fin a) (Fin b) = rnd (a * b)"
| "fmul NaN _ = NaN"
| "fmul _ NaN = NaN"
| "fmul PInf (Fin b) = (if b = 0 then NaN else if 0 < b then PInf else NInf)"
| "fmul NInf (Fin b) = (if b = 0 then NaN else if 0 < b then NInf else PInf)"
| "fmul (Fin a) PInf = (if a = 0 then NaN else if 0 < a then PInf else NInf)"
| "fmul (Fin a) NInf = (if a = 0 then NaN else if 0 < a then NInf else PInf)"
| "fmul PInf PInf = PInf"
| "fmul NInf NInf = PInf"
| "fmul PInf NInf = NInf"
| "fmul NInf PInf = NInf"

fun fdiv :: "f32 \<Rightarrow> f32 \<Rightarrow> f32" where
  "fdiv (Fin a) (Fin b) =
     (if b = 0 then (if a = 0 then NaN else if 0 < a then PInf else NInf) else rnd (a / b))"
| "fdiv NaN _ = NaN"
| "fdiv _ NaN = NaN"
| "fdiv (Fin a) _ = Fin 0"
| "fdiv PInf (Fin b) = (if 0 \<le> b then PInf else NInf)"
| "fdiv NInf (Fin b) = (if 0 \<le> b then NInf else PInf)"
| "fdiv _ _ = NaN"

fun fsqrt :: "f32 \<Rightarrow> f32" where
  "fsqrt (Fin a) = (if a < 0 then NaN else rnd (sqrt a))"
| "fsqrt PInf = PInf"
| "fsqrt _ = NaN"

fun fexp :: "f32 \<Rightarrow> f32" where
  "fexp (Fin a) = rnd (exp a)"
| "fexp PInf = PInf"
| "fexp NInf = Fin 0"
| "fexp NaN = NaN"

fun fmax :: "f32 \<Rightarrow> f32 \<Rightarrow> f32" where
  "fmax (Fin a) (Fin b) = Fin (max a b)"
| "fmax NaN _ = NaN"
| "fmax _ NaN = NaN"
| "fmax PInf _ = PInf"
| "fmax _ PInf = PInf"
| "fmax NInf b = b"
| "fmax a NInf = a"

text \<open>
  The kernels in single precision. Products and sums are accumulated from left to right.
  The softmax of a row subtracts the maximum of the row before it exponentiates, as the
  framework's kernel does, and divides by the sum of the exponentials.
\<close>

definition dot32 :: "f32 list \<Rightarrow> f32 list \<Rightarrow> f32" where
  "dot32 u w = foldl (\<lambda>acc (x, y). fadd acc (fmul x y)) (Fin 0) (zip u w)"

definition sum32 :: "f32 list \<Rightarrow> f32" where
  "sum32 xs = foldl fadd (Fin 0) xs"

definition max32 :: "f32 list \<Rightarrow> f32" where
  "max32 xs = (case xs of [] \<Rightarrow> NInf | x # r \<Rightarrow> foldl fmax x r)"

definition softmax32 :: "f32 list \<Rightarrow> f32 list" where
  "softmax32 xs =
     (let mx = max32 xs;
          e = map (\<lambda>x. fexp (fsub x mx)) xs;
          s = sum32 e
      in map (\<lambda>y. fdiv y s) e)"

definition float32_kernels :: "f32 kernels" where
  "float32_kernels =
     \<lparr>kdot = dot32, ksoftmax = softmax32, kadd = fadd, kmul = fmul, kdiv = fdiv,
      ksqrt = fsqrt, kcast = (\<lambda>n. rnd (real n)), kconst = rnd\<rparr>"

text \<open>The real number a finite \<open>float32\<close> stands for.\<close>

fun val32 :: "f32 \<Rightarrow> real" where
  "val32 (Fin a) = a"
| "val32 _ = 0"

section \<open>Properties\<close>

subsection \<open>The positional index tensor\<close>

lemma x_pos_replicate: "x_pos batch seq_len = replicate batch (tf_range seq_len)"
proof -
  have "concat (replicate batch [r]) = replicate batch r" for r :: "int list"
    by (induction batch) simp_all
  then show ?thesis
    by (simp add: x_pos_def tf_tile_def expand_dims0_def)
qed

lemma range_in_table:
  "list_all (in_table table) (tf_range n) \<longleftrightarrow> n \<le> length table"
proof
  assume a: "list_all (in_table table) (tf_range n)"
  show "n \<le> length table"
  proof (cases n)
    case 0
    then show ?thesis by simp
  next
    case (Suc m)
    then have "int m \<in> set (tf_range n)"
      by (simp add: tf_range_def)
    with a have "in_table table (int m)"
      by (simp add: list_all_iff)
    with Suc show ?thesis
      by (simp add: in_table_def)
  qed
next
  assume "n \<le> length table"
  then show "list_all (in_table table) (tf_range n)"
    by (auto simp: list_all_iff tf_range_def in_table_def)
qed

subsection \<open>Construction of the attention layer\<close>

text \<open>
  C2, as the code has it. For a non-zero head count, construction fails with an
  assertion error exactly when \<open>d_model % num_heads\<close> is not zero; a head count of zero
  fails with ZeroDivisionError instead, raised by \<open>%\<close> itself. Whenever construction
  succeeds the per-head depth is \<open>d_model // num_heads\<close>, and it times the head count
  gives \<open>d_model\<close> back.
\<close>

theorem MultiHeadAttention_init_outcome:
  "(MultiHeadAttention_init dm nh a b c d = Inl AssertionError \<longleftrightarrow> nh \<noteq> 0 \<and> dm mod nh \<noteq> 0)
   \<and> (MultiHeadAttention_init dm nh a b c d = Inl ZeroDivisionError \<longleftrightarrow> nh = 0)
   \<and> (\<forall>l. MultiHeadAttention_init dm nh a b c d = Inr l \<longrightarrow>
         nh \<noteq> 0 \<and> dm mod nh = 0 \<and> depth l = dm div nh \<and> depth l * nh = dm
         \<and> num_heads l = nh \<and> d_model l = dm)"
  by (auto simp: MultiHeadAttention_init_def)

theorem MultiHeadAttention_init_outcome_witness:
  "MultiHeadAttention_init 10 3 sample_dense sample_dense sample_dense sample_dense
     = Inl AssertionError
   \<and> MultiHeadAttention_init 2 2 sample_dense sample_dense sample_dense sample_dense
     = Inr sample_mha
   \<and> depth sample_mha = 2 div 2"
proof -
  have ok: "MultiHeadAttention_init 2 2 sample_dense sample_dense sample_dense sample_dense
      = Inr sample_mha"
    by (simp add: MultiHeadAttention_init_def sample_mha_def)
  have bad: "(3::int) \<noteq> 0 \<and> (10::int) mod 3 \<noteq> 0"
    by simp
  from MultiHeadAttention_init_outcome [of 10 3 sample_dense sample_dense sample_dense sample_dense]
    bad
  have "MultiHeadAttention_init 10 3 sample_dense sample_dense sample_dense sample_dense
      = Inl AssertionError"
    by blast
  moreover
  from MultiHeadAttention_init_outcome [of 2 2 sample_dense sample_dense sample_dense sample_dense]
    ok
  have "depth sample_mha = 2 div 2"
    by blast
  ultimately show ?thesis
    using ok by blast
qed

text \<open>
  C2 as the specification words it fails at a head count of zero: 4 is not evenly
  divisible by 0, and the constructor does not fail with an assertion error there.
\<close>

theorem MultiHeadAttention_init_zero_heads:
  "\<not> (0::int) dvd 4
   \<and> MultiHeadAttention_init 4 0 sample_dense sample_dense sample_dense sample_dense
       \<noteq> Inl AssertionError
   \<and> MultiHeadAttention_init 4 0 sample_dense sample_dense sample_dense sample_dense
       = Inl ZeroDivisionError"
  by (simp add: MultiHeadAttention_init_def)

subsection \<open>Shapes, broadcasting and softmax\<close>

lemma shape3_nth: "shape3 b n d t \<Longrightarrow> i < b \<Longrightarrow> shape2 n d (t ! i)"
  by (simp add: shape3_def list_all_length)

lemma shape4_nth: "shape4 b h n d t \<Longrightarrow> i < b \<Longrightarrow> shape3 h n d (t ! i)"
  by (simp add: shape4_def list_all_length)

lemma dot_sum: "length u = length w \<Longrightarrow> dot u w = (\<Sum>d<length w. u ! d * w ! d)"
  by (simp add: dot_def sum_list_sum_nth atLeast0LessThan)

lemma sum_list_map_sum: "sum_list (map f xs) = (\<Sum>j<length xs. f (xs ! j))"
  by (simp add: sum_list_sum_nth atLeast0LessThan)

lemma softmax_nth:
  "j < length xs \<Longrightarrow> softmax xs ! j = exp (xs ! j) / (\<Sum>j'<length xs. exp (xs ! j'))"
  by (simp add: softmax_def sum_list_map_sum)

lemma last_dim_shape:
  "shape4 b h n d k \<Longrightarrow> 0 < b \<Longrightarrow> 0 < h \<Longrightarrow> 0 < n \<Longrightarrow> last_dim k = d"
  apply (cases k; simp add: shape4_def last_dim_def)
  subgoal for e es
    apply (cases e; simp add: shape3_def)
    subgoal for m ms
      by (cases m; simp add: shape2_def shape1_def ncols_def)
    done
  done

lemma bcast_length: "bsize n xs \<Longrightarrow> 0 < n \<Longrightarrow> length (bcast n xs) = n"
  by (auto simp: bsize_def bcast_def split: list.splits)

lemma bcast_nth: "bsize n xs \<Longrightarrow> i < n \<Longrightarrow> bcast n xs ! i = bnth xs i"
  by (auto simp: bsize_def bcast_def bnth_def split: list.splits)

lemma bnth_in_set: "bsize n xs \<Longrightarrow> i < n \<Longrightarrow> bnth xs i \<in> set xs"
  by (auto simp: bsize_def bnth_def)

lemma bnth_map: "bsize n xs \<Longrightarrow> i < n \<Longrightarrow> bnth (map f xs) i = f (bnth xs i)"
  by (auto simp: bsize_def bnth_def)

lemma bsize_map: "bsize n (map f xs) = bsize n xs"
  by (simp add: bsize_def)

lemma map2_bcast_nth:
  assumes "bsize (length a) m" "i < length a"
  shows "map2 f a (bcast (length a) m) ! i = f (a ! i) (bnth m i)"
proof -
  from assms have "length (bcast (length a) m) = length a"
    by (intro bcast_length) auto
  with assms show ?thesis
    by (simp add: bcast_nth)
qed

lemma map2_bcast_length:
  assumes "bsize (length a) m"
  shows "length (map2 f a (bcast (length a) m)) = length a"
proof (cases "length a = 0")
  case True
  then show ?thesis by simp
next
  case False
  with assms have "length (bcast (length a) m) = length a"
    by (intro bcast_length) auto
  then show ?thesis by simp
qed

lemma add1_nth: "bsize (length a) m \<Longrightarrow> j < length a \<Longrightarrow> add1 a m ! j = a ! j + bnth m j"
  unfolding add1_def by (rule map2_bcast_nth)

lemma add1_length: "bsize (length a) m \<Longrightarrow> length (add1 a m) = length a"
  unfolding add1_def by (rule map2_bcast_length)

lemma add2_nth: "bsize (length a) m \<Longrightarrow> i < length a \<Longrightarrow> add2 a m ! i = add1 (a ! i) (bnth m i)"
  unfolding add2_def by (rule map2_bcast_nth)

lemma add2_length: "bsize (length a) m \<Longrightarrow> length (add2 a m) = length a"
  unfolding add2_def by (rule map2_bcast_length)

lemma add3_nth: "bsize (length a) m \<Longrightarrow> i < length a \<Longrightarrow> add3 a m ! i = add2 (a ! i) (bnth m i)"
  unfolding add3_def by (rule map2_bcast_nth)

lemma add3_length: "bsize (length a) m \<Longrightarrow> length (add3 a m) = length a"
  unfolding add3_def by (rule map2_bcast_length)

lemma add4_nth: "bsize (length a) m \<Longrightarrow> i < length a \<Longrightarrow> add4 a m ! i = add3 (a ! i) (bnth m i)"
  unfolding add4_def by (rule map2_bcast_nth)

lemma add4_length: "bsize (length a) m \<Longrightarrow> length (add4 a m) = length a"
  unfolding add4_def by (rule map2_bcast_length)

lemma broadcastable_D:
  assumes t: "broadcastable B H n m t"
  shows "bsize B t"
    and "b < B \<Longrightarrow> bsize H (bnth t b)"
    and "b < B \<Longrightarrow> h < H \<Longrightarrow> bsize n (bnth (bnth t b) h)"
    and "b < B \<Longrightarrow> h < H \<Longrightarrow> i < n \<Longrightarrow> bsize m (bnth (bnth (bnth t b) h) i)"
proof -
  show 1: "bsize B t"
    using t by (simp add: broadcastable_def)
  have 2: "bsize H (bnth t b) \<and> list_all (\<lambda>y. bsize n y \<and> list_all (bsize m) y) (bnth t b)"
    if "b < B" for b
    using bnth_in_set [OF 1 that] t by (simp add: broadcastable_def list_all_iff)
  then show "b < B \<Longrightarrow> bsize H (bnth t b)"
    by simp
  have 3: "bsize n (bnth (bnth t b) h) \<and> list_all (bsize m) (bnth (bnth t b) h)"
    if "b < B" "h < H" for b h
    using bnth_in_set [of H "bnth t b" h] 2 [OF that(1)] that(2) by (simp add: list_all_iff)
  then show "b < B \<Longrightarrow> h < H \<Longrightarrow> bsize n (bnth (bnth t b) h)"
    by simp
  show "bsize m (bnth (bnth (bnth t b) h) i)" if "b < B" "h < H" "i < n"
    using bnth_in_set [of n "bnth (bnth t b) h" i] 3 [OF that(1,2)] that(3)
    by (simp add: list_all_iff)
qed

lemma shape4_iff:
  "shape4 B H n m t \<longleftrightarrow>
     length t = B \<and> (\<forall>b<B. length (t ! b) = H \<and> (\<forall>h<H. length (t ! b ! h) = n
        \<and> (\<forall>i<n. length (t ! b ! h ! i) = m)))"
  by (auto simp: shape4_def shape3_def shape2_def shape1_def list_all_length)

lemma shape3_iff:
  "shape3 B n m t \<longleftrightarrow>
     length t = B \<and> (\<forall>b<B. length (t ! b) = n \<and> (\<forall>i<n. length (t ! b ! i) = m))"
  by (auto simp: shape3_def shape2_def shape1_def list_all_length)

lemma ncols_shape2: "shape2 n d m \<Longrightarrow> 0 < n \<Longrightarrow> ncols m = d"
  by (cases m) (simp_all add: shape2_def shape1_def ncols_def)

lemma add4_entry:
  assumes a: "shape4 B H n m a" and t: "broadcastable B H n m t"
  shows "shape4 B H n m (add4 a t)"
    and "b < B \<Longrightarrow> h < H \<Longrightarrow> i < n \<Longrightarrow> j < m \<Longrightarrow>
      add4 a t ! b ! h ! i ! j = a ! b ! h ! i ! j + bnth (bnth (bnth (bnth t b) h) i) j"
proof -
  note A = a [unfolded shape4_iff] and bd = broadcastable_D [OF t]
  have e4: "add4 a t ! b = add3 (a ! b) (bnth t b)" if "b < B" for b
    using bd(1) that A by (simp add: add4_nth)
  have e3: "add4 a t ! b ! h = add2 (a ! b ! h) (bnth (bnth t b) h)" if "b < B" "h < H" for b h
    using bd(2) that A by (simp add: e4 add3_nth)
  have e2: "add4 a t ! b ! h ! i = add1 (a ! b ! h ! i) (bnth (bnth (bnth t b) h) i)"
    if "b < B" "h < H" "i < n" for b h i
    using bd(3) that A by (simp add: e3 add2_nth)
  show "shape4 B H n m (add4 a t)"
    unfolding shape4_iff
  proof (intro conjI allI impI)
    show "length (add4 a t) = B"
      using bd(1) A by (simp add: add4_length)
    fix b assume b: "b < B"
    show "length (add4 a t ! b) = H"
      using bd(2) b A by (simp add: e4 add3_length)
    fix h assume h: "h < H"
    show "length (add4 a t ! b ! h) = n"
      using bd(3) b h A by (simp add: e3 add2_length)
    fix i assume i: "i < n"
    show "length (add4 a t ! b ! h ! i) = m"
      using bd(4) b h i A by (simp add: e2 add1_length)
  qed
  assume b: "b < B" and h: "h < H" and i: "i < n" and j: "j < m"
  show "add4 a t ! b ! h ! i ! j = a ! b ! h ! i ! j + bnth (bnth (bnth (bnth t b) h) i) j"
    using bd(4) b h i j A by (simp add: e2 add1_nth)
qed

subsection \<open>Scaled dot-product attention\<close>

lemma logits_entry:
  assumes q: "shape4 B H n d q" and k: "shape4 B H m d k"
    and pos: "0 < B" "0 < H" "0 < m"
  shows "shape4 B H n m (scaled_logits q k)"
proof -
  note Q = q [unfolded shape4_iff] and K = k [unfolded shape4_iff]
  show "shape4 B H n m (scaled_logits q k)"
    unfolding shape4_iff using Q K
    by (simp add: scaled_logits_def div_scalar_def tf_matmul_def matmul2_tb_def)
qed

lemma broadcastable_mul_scalar:
  "broadcastable B H n m (mul_scalar t c) = broadcastable B H n m t"
  by (simp add: broadcastable_def mul_scalar_def bsize_map list_all_iff)

lemma masked_entry:
  assumes q: "shape4 B H n d q" and k: "shape4 B H m d k"
    and pos: "0 < B" "0 < H" "0 < m"
    and mk: "mask_ok B H n m msk"
  shows "shape4 B H n m (masked_logits q k msk)"
proof (cases msk)
  case None
  then show ?thesis using logits_entry [OF q k pos] by (simp add: masked_logits_def)
next
  case (Some t)
  with mk have "broadcastable B H n m (mul_scalar t (- (10 ^ 9)))"
    by (simp add: mask_ok_def broadcastable_mul_scalar)
  from add4_entry(1) [OF logits_entry [OF q k pos] this] Some show ?thesis
    by (simp add: masked_logits_def)
qed

lemma sdpa_unfold:
  "scaled_dot_product_attention q k v msk =
     (tf_matmul (softmax_last (masked_logits q k msk)) v False, softmax_last (masked_logits q k msk))"
  by (simp add: scaled_dot_product_attention_def masked_logits_def scaled_logits_def Let_def split: option.split)

lemma weights_entry:
  assumes q: "shape4 B H n d q" and k: "shape4 B H m d k"
    and pos: "0 < B" "0 < H" "0 < m"
    and mk: "mask_ok B H n m msk"
  shows "shape4 B H n m (softmax_last (masked_logits q k msk))"
proof -
  note Ms = masked_entry [OF q k pos mk, unfolded shape4_iff]
  show "shape4 B H n m (softmax_last (masked_logits q k msk))"
    unfolding shape4_iff using Ms by (simp add: softmax_last_def softmax_def)
qed

lemma output_entry:
  assumes q: "shape4 B H n d q" and k: "shape4 B H m d k" and v: "shape4 B H m dv v"
    and pos: "0 < B" "0 < H" "0 < m"
    and mk: "mask_ok B H n m msk"
  shows "shape4 B H n dv (tf_matmul (softmax_last (masked_logits q k msk)) v False)"
proof -
  let ?w = "softmax_last (masked_logits q k msk)"
  note W = weights_entry [OF q k pos mk, unfolded shape4_iff]
  note V = v [unfolded shape4_iff]
  have nc: "ncols (v ! b ! h) = dv" if "b < B" "h < H" for b h
  proof -
    have "shape2 m dv (v ! b ! h)"
      using shape3_nth [OF shape4_nth [OF v that(1)] that(2)] .
    then show ?thesis using pos(3) by (rule ncols_shape2)
  qed
  show "shape4 B H n dv (tf_matmul ?w v False)"
    unfolding shape4_iff using W V nc
    by (simp add: tf_matmul_def matmul2_def)
qed

subsection \<open>Attention at any rank: shapes and slices\<close>

lemma shaped_Nil: "shaped [] n d t \<longleftrightarrow> (\<exists>a. t = Mat a \<and> shape2 n d a)"
  by (cases t) simp_all

lemma shaped_Cons:
  "shaped (b # bs) n d t \<longleftrightarrow> (\<exists>ts. t = Batch ts \<and> length ts = b \<and> (\<forall>i<b. shaped bs n d (ts ! i)))"
  by (cases t) (auto simp: list_all_length)

lemma inside_Nil: "inside [] idx \<longleftrightarrow> idx = []"
  by (simp add: inside_def)

lemma inside_Cons: "inside (b # bs) idx \<longleftrightarrow> (\<exists>i is. idx = i # is \<and> i < b \<and> inside bs is)"
  by (cases idx) (simp_all add: inside_def)

lemma rank_shaped:
  "shaped ds n d t \<Longrightarrow> list_all ((<) 0) ds \<Longrightarrow> rank t = length ds + 2"
proof (induction ds arbitrary: t)
  case Nil
  then obtain a where "t = Mat a" by (auto simp del: shaped.simps simp: shaped_Nil)
  then show ?case by simp
next
  case (Cons b bs)
  from Cons.prems(1) obtain ts where t: "t = Batch ts" "length ts = b"
    and sub: "\<forall>i<b. shaped bs n d (ts ! i)"
    by (auto simp del: shaped.simps simp: shaped_Cons)
  from Cons.prems(2) have b: "0 < b" and bs: "list_all ((<) 0) bs" by simp_all
  from t(2) b obtain x xs where ts: "ts = x # xs" by (cases ts) auto
  with sub b have "shaped bs n d x" by force
  from Cons.IH [OF this bs] show ?case by (simp add: t ts)
qed

lemma last_axis_shaped:
  "shaped ds m d t \<Longrightarrow> list_all ((<) 0) ds \<Longrightarrow> 0 < m \<Longrightarrow> last_axis t = d"
proof (induction ds arbitrary: t)
  case Nil
  then obtain a where "t = Mat a" "shape2 m d a"
    by (auto simp del: shaped.simps simp: shaped_Nil)
  with Nil.prems(3) show ?case by (simp add: ncols_shape2)
next
  case (Cons b bs)
  from Cons.prems(1) obtain ts where t: "t = Batch ts" "length ts = b"
    and sub: "\<forall>i<b. shaped bs m d (ts ! i)"
    by (auto simp del: shaped.simps simp: shaped_Cons)
  from Cons.prems(2) have b: "0 < b" and bs: "list_all ((<) 0) bs" by simp_all
  from t(2) b obtain x xs where ts: "ts = x # xs" by (cases ts) auto
  with sub b have "shaped bs m d x" by force
  from Cons.IH [OF this bs Cons.prems(3)] show ?case by (simp add: t ts)
qed

lemma zip_mats_shaped:
  assumes f: "\<And>x y. shape2 n d x \<Longrightarrow> shape2 n' d' y \<Longrightarrow> shape2 p r (f x y)"
  shows "shaped ds n d a \<Longrightarrow> shaped ds n' d' b \<Longrightarrow> shaped ds p r (zip_mats f a b)"
proof (induction ds arbitrary: a b)
  case Nil
  then obtain x y where "a = Mat x" "shape2 n d x" "b = Mat y" "shape2 n' d' y"
    by (auto simp del: shaped.simps simp: shaped_Nil)
  then show ?case by (simp add: f)
next
  case (Cons c cs)
  from Cons.prems obtain ts bs where a: "a = Batch ts" "length ts = c"
    and b: "b = Batch bs" "length bs = c"
    and sa: "\<forall>i<c. shaped cs n d (ts ! i)" and sb: "\<forall>i<c. shaped cs n' d' (bs ! i)"
    by (auto simp del: shaped.simps simp: shaped_Cons)
  show ?case
    unfolding shaped_Cons using a b sa sb Cons.IH by simp
qed

lemma zip_mats_slice:
  "shaped ds n d a \<Longrightarrow> shaped ds n' d' b \<Longrightarrow> inside ds idx \<Longrightarrow>
     slice idx (zip_mats f a b) = f (slice idx a) (slice idx b)"
proof (induction ds arbitrary: a b idx)
  case Nil
  then obtain x y where "a = Mat x" "b = Mat y" "idx = []"
    by (auto simp del: shaped.simps simp: shaped_Nil inside_Nil)
  then show ?case by simp
next
  case (Cons c cs)
  from Cons.prems obtain ts bs where a: "a = Batch ts" "length ts = c"
    and b: "b = Batch bs" "length bs = c"
    and sa: "\<forall>i<c. shaped cs n d (ts ! i)" and sb: "\<forall>i<c. shaped cs n' d' (bs ! i)"
    by (auto simp del: shaped.simps simp: shaped_Cons)
  from Cons.prems(3) obtain i "is" where idx: "idx = i # is" "i < c" "inside cs is"
    by (auto simp: inside_Cons)
  from Cons.IH [of "ts ! i" "bs ! i" "is"] sa sb idx a b show ?case
    by simp
qed

lemma on_rows_shaped:
  assumes f: "\<And>r. length (f r) = length r"
  shows "shaped ds n d t \<Longrightarrow> shaped ds n d (on_rows f t)"
proof (induction ds arbitrary: t)
  case Nil
  then obtain a where "t = Mat a" "shape2 n d a"
    by (auto simp del: shaped.simps simp: shaped_Nil)
  then show ?case by (simp add: shape2_def shape1_def list_all_iff f)
next
  case (Cons c cs)
  from Cons.prems obtain ts where t: "t = Batch ts" "length ts = c"
    and st: "\<forall>i<c. shaped cs n d (ts ! i)"
    by (auto simp del: shaped.simps simp: shaped_Cons)
  show ?case
    unfolding shaped_Cons using t st Cons.IH by simp
qed

lemma on_rows_slice:
  "shaped ds n d t \<Longrightarrow> inside ds idx \<Longrightarrow> slice idx (on_rows f t) = map f (slice idx t)"
proof (induction ds arbitrary: t idx)
  case Nil
  then obtain a where "t = Mat a" "shape2 n d a" "idx = []"
    by (auto simp del: shaped.simps simp: shaped_Nil inside_Nil)
  then show ?case by simp
next
  case (Cons c cs)
  from Cons.prems obtain ts where t: "t = Batch ts" "length ts = c"
    and st: "\<forall>i<c. shaped cs n d (ts ! i)"
    by (auto simp del: shaped.simps simp: shaped_Cons)
  from Cons.prems(2) obtain i "is" where idx: "idx = i # is" "i < c" "inside cs is"
    by (auto simp: inside_Cons)
  from Cons.IH [of "ts ! i" "is"] st idx t show ?case by simp
qed

lemma map_tensor_shaped: "shaped ds n d t \<Longrightarrow> shaped ds n d (map_tensor g t)"
proof (induction ds arbitrary: t)
  case Nil
  then obtain a where "t = Mat a" "shape2 n d a"
    by (auto simp del: shaped.simps simp: shaped_Nil)
  then show ?case by (simp add: shape2_def shape1_def list_all_iff)
next
  case (Cons c cs)
  from Cons.prems obtain ts where t: "t = Batch ts" "length ts = c"
    and st: "\<forall>i<c. shaped cs n d (ts ! i)"
    by (auto simp del: shaped.simps simp: shaped_Cons)
  show ?case
    unfolding shaped_Cons using t st Cons.IH by simp
qed

lemma map_tensor_slice:
  "shaped ds n d t \<Longrightarrow> inside ds idx \<Longrightarrow> slice idx (map_tensor g t) = map (map g) (slice idx t)"
proof (induction ds arbitrary: t idx)
  case Nil
  then obtain a where "t = Mat a" "shape2 n d a" "idx = []"
    by (auto simp del: shaped.simps simp: shaped_Nil inside_Nil)
  then show ?case by simp
next
  case (Cons c cs)
  from Cons.prems obtain ts where t: "t = Batch ts" "length ts = c"
    and st: "\<forall>i<c. shaped cs n d (ts ! i)"
    by (auto simp del: shaped.simps simp: shaped_Cons)
  from Cons.prems(2) obtain i "is" where idx: "idx = i # is" "i < c" "inside cs is"
    by (auto simp: inside_Cons)
  from Cons.IH [of "ts ! i" "is"] st idx t show ?case by simp
qed

lemma slice_shape: "shaped ds n d t \<Longrightarrow> inside ds idx \<Longrightarrow> shape2 n d (slice idx t)"
proof (induction ds arbitrary: t idx)
  case Nil
  then obtain a where "t = Mat a" "shape2 n d a" "idx = []"
    by (auto simp del: shaped.simps simp: shaped_Nil inside_Nil)
  then show ?case by simp
next
  case (Cons c cs)
  from Cons.prems obtain ts where t: "t = Batch ts" "length ts = c"
    and st: "\<forall>i<c. shaped cs n d (ts ! i)"
    by (auto simp del: shaped.simps simp: shaped_Cons)
  from Cons.prems(2) obtain i "is" where idx: "idx = i # is" "i < c" "inside cs is"
    by (auto simp: inside_Cons)
  from Cons.IH [of "ts ! i" "is"] st idx t show ?case by simp
qed

lemma rank_map_tensor: "rank (map_tensor g t) = rank t"
proof (induction t)
  case (Mat a)
  show ?case by simp
next
  case (Batch ts)
  then show ?case by (cases ts) simp_all
qed

lemma mask_fits_map_tensor:
  "mask_fits ds n m (map_tensor g t) = mask_fits ds n m t"
proof (induction ds arbitrary: t)
  case Nil
  show ?case by (cases t) (simp_all add: bsize_map list_all_iff)
next
  case (Cons d ds)
  note r = rank_map_tensor [of g t]
  show ?case
  proof (cases "rank t < length ds + 3")
    case True
    then show ?thesis
      using r by (simp add: Cons.IH del: rank.simps)
  next
    case False
    then have 1: "mask_fits (d # ds) n m (map_tensor g t)
        = (case map_tensor g t of
             Mat _ \<Rightarrow> False
           | Batch ms \<Rightarrow> bsize d ms \<and> list_all (mask_fits ds n m) ms)"
      using r by (simp del: rank.simps)
    from False have 2: "mask_fits (d # ds) n m t
        = (case t of
             Mat _ \<Rightarrow> False
           | Batch ms \<Rightarrow> bsize d ms \<and> list_all (mask_fits ds n m) ms)"
      by (simp del: rank.simps)
    show ?thesis
      unfolding 1 2 by (cases t) (simp_all add: Cons.IH bsize_map list_all_iff)
  qed
qed

lemma mask_slice_fits:
  "mask_fits ds n m t \<Longrightarrow> inside ds idx \<Longrightarrow>
     bsize n (mask_slice idx t) \<and> list_all (bsize m) (mask_slice idx t)"
proof (induction ds arbitrary: t idx)
  case Nil
  then show ?case by (cases t) (simp_all add: inside_Nil)
next
  case (Cons d ds)
  from Cons.prems(2) obtain i "is" where idx: "idx = i # is" "i < d" "inside ds is"
    by (auto simp: inside_Cons)
  then have len: "length is = length ds"
    by (simp add: inside_def list_all2_lengthD)
  show ?case
  proof (cases "rank t < length ds + 3")
    case True
    with Cons.prems(1) have "mask_fits ds n m t" by simp
    from Cons.IH [OF this idx(3)] True show ?thesis by (simp add: idx len)
  next
    case False
    with Cons.prems(1) obtain ms where t: "t = Batch ms" and bs: "bsize d ms"
      and fit: "list_all (mask_fits ds n m) ms"
      by (cases t) simp_all
    from bnth_in_set [OF bs idx(2)] fit have "mask_fits ds n m (bnth ms i)"
      by (simp add: list_all_iff)
    from Cons.IH [OF this idx(3)] False show ?thesis
      by (simp add: idx len t del: rank.simps)
  qed
qed

lemma mask_slice_map_tensor:
  "mask_fits ds n m t \<Longrightarrow> inside ds idx \<Longrightarrow>
     mask_slice idx (map_tensor g t) = map (map g) (mask_slice idx t)"
proof (induction ds arbitrary: t idx)
  case Nil
  then show ?case by (cases t) (simp_all add: inside_Nil)
next
  case (Cons d ds)
  from Cons.prems(2) obtain i "is" where idx: "idx = i # is" "i < d" "inside ds is"
    by (auto simp: inside_Cons)
  then have len: "length is = length ds"
    by (simp add: inside_def list_all2_lengthD)
  show ?case
  proof (cases "rank t < length ds + 3")
    case True
    with Cons.prems(1) have "mask_fits ds n m t" by simp
    from Cons.IH [OF this idx(3)] True show ?thesis
      by (simp add: idx len rank_map_tensor)
  next
    case False
    with Cons.prems(1) obtain ms where t: "t = Batch ms" and bs: "bsize d ms"
      and fit: "list_all (mask_fits ds n m) ms"
      by (cases t) simp_all
    from bnth_in_set [OF bs idx(2)] fit have "mask_fits ds n m (bnth ms i)"
      by (simp add: list_all_iff)
    from Cons.IH [OF this idx(3)] False rank_map_tensor [of g t] show ?thesis
      by (simp add: idx len t bnth_map [OF bs idx(2)] del: rank.simps)
  qed
qed

lemma add_rows_entry:
  assumes a: "shape2 n m a" and b: "bsize n b" "list_all (bsize m) b"
  shows "shape2 n m (add_rows K a b)"
    and "i < n \<Longrightarrow> j < m \<Longrightarrow> add_rows K a b ! i ! j = kadd K (a ! i ! j) (bnth (bnth b i) j)"
proof -
  from a have la: "length a = n" and rows: "\<And>i. i < n \<Longrightarrow> length (a ! i) = m"
    by (simp_all add: shape2_def shape1_def list_all_length)
  have bi: "bsize m (bnth b i)" if "i < n" for i
    using bnth_in_set [OF b(1) that] b(2) by (simp add: list_all_iff)
  have row: "add_rows K a b ! i = map2 (kadd K) (a ! i) (bcast (length (a ! i)) (bnth b i))"
    if "i < n" for i
    unfolding add_rows_def using map2_bcast_nth [of a b i] b(1) that la by simp
  have len: "length (add_rows K a b) = n"
    unfolding add_rows_def using map2_bcast_length [of a b] b(1) la by simp
  have rlen: "length (add_rows K a b ! i) = m" if "i < n" for i
    using map2_bcast_length [of "a ! i" "bnth b i" "kadd K"] bi [OF that] rows [OF that]
    by (simp add: row [OF that])
  show "shape2 n m (add_rows K a b)"
    by (simp add: shape2_def shape1_def list_all_length len rlen)
  assume "i < n" "j < m"
  then show "add_rows K a b ! i ! j = kadd K (a ! i ! j) (bnth (bnth b i) j)"
    using map2_bcast_nth [of "a ! i" "bnth b i" j "kadd K"] bi [of i] rows [of i]
    by (simp add: row)
qed

lemma bc_add_slice:
  assumes pos: "list_all ((<) 0) ds"
  shows "shaped ds n m t \<Longrightarrow> mask_fits ds n m mk \<Longrightarrow>
     shaped ds n m (bc_add K t mk)
     \<and> (inside ds idx \<longrightarrow> slice idx (bc_add K t mk) = add_rows K (slice idx t) (mask_slice idx mk))"
  using pos
proof (induction ds arbitrary: t mk idx)
  case Nil
  from Nil.prems(1) obtain a where t: "t = Mat a" and a: "shape2 n m a"
    by (auto simp del: shaped.simps simp: shaped_Nil)
  from Nil.prems(2) obtain b where mk: "mk = Mat b" and b: "bsize n b" "list_all (bsize m) b"
    by (cases mk) simp_all
  show ?case
    using add_rows_entry(1) [OF a b] by (simp add: t mk inside_Nil)
next
  case (Cons d ds)
  from Cons.prems(1) obtain ts where t: "t = Batch ts" "length ts = d"
    and sub: "\<forall>i<d. shaped ds n m (ts ! i)"
    by (auto simp del: shaped.simps simp: shaped_Cons)
  from Cons.prems(3) have d: "0 < d" and pos: "list_all ((<) 0) ds" by simp_all
  have rt: "rank (Batch ts) = length ds + 3"
    using rank_shaped [OF Cons.prems(1,3)] by (simp add: t)
  show ?case
  proof (cases "rank mk < length ds + 3")
    case True
    with Cons.prems(2) have fit: "mask_fits ds n m mk" by simp
    have eq: "bc_add K t mk = Batch (map (\<lambda>s. bc_add K s mk) ts)"
      using True rt by (simp add: t del: rank.simps)
    have 1: "shaped (d # ds) n m (bc_add K t mk)"
      unfolding shaped_Cons eq using t(2) sub Cons.IH [OF _ fit pos] by simp
    have 2: "slice idx (bc_add K t mk) = add_rows K (slice idx t) (mask_slice idx mk)"
      if "inside (d # ds) idx"
    proof -
      from that obtain i "is" where idx: "idx = i # is" "i < d" "inside ds is"
        by (auto simp: inside_Cons)
      then have len: "length is = length ds"
        by (simp add: inside_def list_all2_lengthD)
      have "slice idx (bc_add K t mk) = slice is (bc_add K (ts ! i) mk)"
        using idx t(2) by (simp add: eq)
      also have "\<dots> = add_rows K (slice is (ts ! i)) (mask_slice is mk)"
        using Cons.IH [OF _ fit pos, of "ts ! i" "is"] sub idx by simp
      also have "slice is (ts ! i) = slice idx t"
        by (simp add: idx t)
      also have "mask_slice is mk = mask_slice idx mk"
        using True by (simp add: idx len)
      finally show ?thesis .
    qed
    from 1 2 show ?thesis by blast
  next
    case False
    with Cons.prems(2) obtain ms where mk: "mk = Batch ms" and bs: "bsize d ms"
      and fit: "list_all (mask_fits ds n m) ms"
      by (cases mk) simp_all
    have fi: "mask_fits ds n m (bnth ms i)" if "i < d" for i
      using bnth_in_set [OF bs that] fit by (simp add: list_all_iff)
    let ?r = "map2 (\<lambda>g x. g x) (map (bc_add K) ts) (bcast (length ts) ms)"
    have eq: "bc_add K t mk = Batch ?r"
      using False rt by (simp add: t mk del: rank.simps)
    have len: "length ?r = d"
      using map2_bcast_length [of "map (bc_add K) ts" ms "\<lambda>g x. g x"] bs t(2) by simp
    have nth: "?r ! i = bc_add K (ts ! i) (bnth ms i)" if "i < d" for i
      using map2_bcast_nth [of "map (bc_add K) ts" ms i "\<lambda>g x. g x"] bs t(2) that by simp
    have 1: "shaped (d # ds) n m (bc_add K t mk)"
      unfolding shaped_Cons eq using len nth sub fi Cons.IH [OF _ _ pos] by simp
    have 2: "slice idx (bc_add K t mk) = add_rows K (slice idx t) (mask_slice idx mk)"
      if "inside (d # ds) idx"
    proof -
      from that obtain i "is" where idx: "idx = i # is" "i < d" "inside ds is"
        by (auto simp: inside_Cons)
      then have li: "length is = length ds"
        by (simp add: inside_def list_all2_lengthD)
      have "slice idx (bc_add K t mk) = slice is (?r ! i)"
        by (simp add: eq idx)
      also have "\<dots> = slice is (bc_add K (ts ! i) (bnth ms i))"
        by (simp only: nth [OF idx(2)])
      also have "\<dots> = add_rows K (slice is (ts ! i)) (mask_slice is (bnth ms i))"
        using Cons.IH [OF _ fi [OF idx(2)] pos, of "ts ! i" "is"] sub idx by simp
      also have "slice is (ts ! i) = slice idx t"
        by (simp add: idx t)
      also have "mask_slice is (bnth ms i) = mask_slice idx mk"
        using False by (simp add: idx li mk del: rank.simps)
      finally show ?thesis .
    qed
    from 1 2 show ?thesis by blast
  qed
qed

lemma sdpa_on_unfold:
  "scaled_dot_product_attention_on K q k v msk
     = (tf_matmul_on K (on_rows (ksoftmax K) (logits_on K q k msk)) v False,
        on_rows (ksoftmax K) (logits_on K q k msk))"
  by (simp add: scaled_dot_product_attention_on_def logits_on_def Let_def split: option.split)

lemma matmul_tb_k_shape: "shape2 n d x \<Longrightarrow> shape2 m d y \<Longrightarrow> shape2 n m (matmul_tb_k K x y)"
  by (simp add: shape2_def shape1_def list_all_iff matmul_tb_k_def)

lemma matmul_k_shape:
  "0 < m \<Longrightarrow> shape2 n m x \<Longrightarrow> shape2 m dv y \<Longrightarrow> shape2 n dv (matmul_k K x y)"
  using ncols_shape2 [of m dv y]
  by (simp add: shape2_def shape1_def list_all_iff matmul_k_def)

lemma logits_on_entry:
  assumes q: "shaped ds n d q" and k: "shaped ds m d k"
    and pos: "list_all ((<) 0) ds" and m: "0 < m"
    and mk: "mask_ok_on ds n m msk"
  shows "shaped ds n m (logits_on K q k msk)"
    and "inside ds idx \<Longrightarrow> i < n \<Longrightarrow>
      slice idx (logits_on K q k msk) ! i = map (logit_on K q k msk idx i) [0..<m]"
proof -
  let ?c = "ksqrt K (kcast K (last_axis k))"
  let ?L0 = "tf_matmul_on K q k True"
  let ?L1 = "map_tensor (\<lambda>x. kdiv K x ?c) ?L0"
  have ld: "last_axis k = d"
    using k pos m by (rule last_axis_shaped)
  have s0: "shaped ds n m ?L0"
    unfolding tf_matmul_on_def using q k by (simp add: zip_mats_shaped [OF matmul_tb_k_shape])
  have s1: "shaped ds n m ?L1"
    using s0 by (rule map_tensor_shaped)
  show sh: "shaped ds n m (logits_on K q k msk)"
  proof (cases msk)
    case None
    then show ?thesis using s1 by (simp add: logits_on_def)
  next
    case (Some t)
    with mk have "mask_fits ds n m (map_tensor (\<lambda>x. kmul K x (kconst K (- (10 ^ 9)))) t)"
      by (simp add: mask_ok_on_def mask_fits_map_tensor)
    from bc_add_slice [OF pos s1 this] Some show ?thesis
      by (simp add: logits_on_def)
  qed
  assume idx: "inside ds idx" and i: "i < n"
  note sq = slice_shape [OF q idx] and sk = slice_shape [OF k idx]
  from sq sk have lq: "length (slice idx q) = n" and lk: "length (slice idx k) = m"
    and dk: "\<And>j. j < m \<Longrightarrow> length (slice idx k ! j) = d"
    by (simp_all add: shape2_def shape1_def list_all_length)
  have e1: "slice idx ?L1 ! i ! j
      = kdiv K (kdot K (slice idx q ! i) (slice idx k ! j)) (ksqrt K (kcast K d))"
    if "j < m" for j
  proof -
    have "slice idx ?L0 = matmul_tb_k K (slice idx q) (slice idx k)"
      by (simp add: tf_matmul_on_def zip_mats_slice [OF q k idx])
    then show ?thesis
      using that i lq lk by (simp add: map_tensor_slice [OF s0 idx] matmul_tb_k_def ld)
  qed
  note s1i = slice_shape [OF s1 idx]
  have len: "length (slice idx (logits_on K q k msk) ! i) = m"
    using slice_shape [OF sh idx] i by (simp add: shape2_def shape1_def list_all_length)
  have "slice idx (logits_on K q k msk) ! i ! j = logit_on K q k msk idx i j" if j: "j < m" for j
  proof (cases msk)
    case None
    then show ?thesis
      using e1 [OF j] dk [OF j] by (simp add: logits_on_def logit_on_def)
  next
    case (Some t)
    with mk have fit: "mask_fits ds n m t"
      by (simp add: mask_ok_on_def)
    then have fit': "mask_fits ds n m (map_tensor (\<lambda>x. kmul K x (kconst K (- (10 ^ 9)))) t)"
      by (simp add: mask_fits_map_tensor)
    note ms = mask_slice_fits [OF fit idx]
    have bi: "bsize m (bnth (mask_slice idx t) i)"
      using bnth_in_set [of n "mask_slice idx t" i] ms i by (simp add: list_all_iff)
    have "slice idx (logits_on K q k msk) ! i ! j
        = add_rows K (slice idx ?L1)
            (map (map (\<lambda>x. kmul K x (kconst K (- (10 ^ 9))))) (mask_slice idx t)) ! i ! j"
      using bc_add_slice [OF pos s1 fit', where K = K and idx = idx] idx Some
      by (simp add: logits_on_def mask_slice_map_tensor [OF fit idx])
    also have "\<dots> = kadd K (slice idx ?L1 ! i ! j)
        (bnth (bnth (map (map (\<lambda>x. kmul K x (kconst K (- (10 ^ 9))))) (mask_slice idx t)) i) j)"
      using ms by (intro add_rows_entry(2) [OF s1i _ _ i j]) (simp_all add: bsize_map list_all_iff)
    also have "bnth (bnth (map (map (\<lambda>x. kmul K x (kconst K (- (10 ^ 9))))) (mask_slice idx t)) i) j
        = kmul K (bnth (bnth (mask_slice idx t) i) j) (kconst K (- (10 ^ 9)))"
      using ms i j bi by (simp add: bnth_map [of n _ i] bnth_map [of m _ j])
    finally show ?thesis
      using Some e1 [OF j] dk [OF j] by (simp add: logit_on_def)
  qed
  with len show "slice idx (logits_on K q k msk) ! i = map (logit_on K q k msk idx i) [0..<m]"
    by (intro nth_equalityI) simp_all
qed

lemma sdpa_on_rows:
  assumes q: "shaped ds n d q" and k: "shaped ds m d k" and v: "shaped ds m dv v"
    and pos: "list_all ((<) 0) ds" and m: "0 < m"
    and mk: "mask_ok_on ds n m msk"
    and soft: "\<forall>r. length (ksoftmax K r) = length r"
  shows "shaped ds n dv (fst (scaled_dot_product_attention_on K q k v msk))
    \<and> shaped ds n m (snd (scaled_dot_product_attention_on K q k v msk))
    \<and> (\<forall>idx. inside ds idx \<longrightarrow> (\<forall>i<n.
          slice idx (snd (scaled_dot_product_attention_on K q k v msk)) ! i
            = ksoftmax K (map (logit_on K q k msk idx i) [0..<m])
        \<and> (\<forall>c<dv. slice idx (fst (scaled_dot_product_attention_on K q k v msk)) ! i ! c
              = kdot K (slice idx (snd (scaled_dot_product_attention_on K q k v msk)) ! i)
                  (map (\<lambda>row. row ! c) (slice idx v)))))
    \<and> (\<forall>idx i j. logit_on K q k None idx i j
          = kdiv K (kdot K (slice idx q ! i) (slice idx k ! j))
              (ksqrt K (kcast K (length (slice idx k ! j)))))"
proof (intro conjI allI impI)
  let ?L = "logits_on K q k msk"
  let ?W = "on_rows (ksoftmax K) ?L"
  note L = logits_on_entry [OF q k pos m mk, where K = K]
  have w: "shaped ds n m ?W"
    using soft L(1) by (intro on_rows_shaped) simp_all
  show "shaped ds n dv (fst (scaled_dot_product_attention_on K q k v msk))"
    unfolding sdpa_on_unfold tf_matmul_on_def using w v
    by (simp add: zip_mats_shaped [OF matmul_k_shape [OF m]])
  show "shaped ds n m (snd (scaled_dot_product_attention_on K q k v msk))"
    using w by (simp add: sdpa_on_unfold)
  fix idx i assume idx: "inside ds idx" and i: "i < n"
  have ll: "length (slice idx ?L) = n"
    using slice_shape [OF L(1) idx] by (simp add: shape2_def)
  show wi: "slice idx (snd (scaled_dot_product_attention_on K q k v msk)) ! i
      = ksoftmax K (map (logit_on K q k msk idx i) [0..<m])"
    using i ll by (simp add: sdpa_on_unfold on_rows_slice [OF L(1) idx] L(2) [OF idx i])
  fix c assume c: "c < dv"
  have nc: "ncols (slice idx v) = dv"
    using slice_shape [OF v idx] m by (rule ncols_shape2)
  have lw: "length (slice idx ?W) = n"
    using slice_shape [OF w idx] by (simp add: shape2_def)
  show "slice idx (fst (scaled_dot_product_attention_on K q k v msk)) ! i ! c
      = kdot K (slice idx (snd (scaled_dot_product_attention_on K q k v msk)) ! i)
          (map (\<lambda>row. row ! c) (slice idx v))"
    using i c lw nc
    by (simp add: sdpa_on_unfold tf_matmul_on_def zip_mats_slice [OF w v idx] matmul_k_def)
next
  fix idx i j
  show "logit_on K q k None idx i j
      = kdiv K (kdot K (slice idx q ! i) (slice idx k ! j))
          (ksqrt K (kcast K (length (slice idx k ! j))))"
    by (simp add: logit_on_def)
qed

lemma score_unmasked:
  "logit_on K q k (Some t) idx i j
     = kadd K (logit_on K q k None idx i j)
         (kmul K (bnth (bnth (mask_slice idx t) i) j) (kconst K (- (10 ^ 9))))"
  by (simp add: logit_on_def)

subsection \<open>The rank-4 function over the reals is the function at any rank, in exact arithmetic\<close>

lemma map2_apply: "map2 (\<lambda>g b. g b) (map h ts) bs = map2 h ts bs"
proof (induction ts arbitrary: bs)
  case Nil
  show ?case by simp
next
  case (Cons a ts)
  then show ?case by (cases bs) simp_all
qed

lemma map2_maps:
  assumes "\<And>a b. g (p a) (q b) = r (f a b)"
  shows "map2 g (map p x) (map q y) = map r (map2 f x y)"
proof (induction x arbitrary: y)
  case Nil
  show ?case by simp
next
  case (Cons a x)
  then show ?case using assms by (cases y) simp_all
qed

lemma zip_mats_of_tensor4:
  "zip_mats f (of_tensor4 a) (of_tensor4 b) = of_tensor4 (map2 (map2 f) a b)"
proof -
  have inner: "zip_mats f (Batch (map Mat x)) (Batch (map Mat y)) = Batch (map Mat (map2 f x y))"
    for x y
  proof -
    have "map2 (zip_mats f) (map Mat x) (map Mat y) = map Mat (map2 f x y)"
      by (rule map2_maps) simp
    then show ?thesis
      by (simp only: zip_mats.simps tensor.case map2_apply)
  qed
  have "map2 (zip_mats f) (map (\<lambda>x. Batch (map Mat x)) a) (map (\<lambda>x. Batch (map Mat x)) b)
      = map (\<lambda>x. Batch (map Mat x)) (map2 (map2 f) a b)"
    by (rule map2_maps) (rule inner)
  then show ?thesis
    by (simp only: of_tensor4_def zip_mats.simps tensor.case map2_apply)
qed

lemma map_tensor_of_tensor4:
  "map_tensor g (of_tensor4 t) = of_tensor4 (map (map (map (map g))) t)"
  by (simp add: of_tensor4_def)

lemma on_rows_of_tensor4:
  "on_rows g (of_tensor4 t) = of_tensor4 (map (map (map g)) t)"
  by (simp add: of_tensor4_def)

lemma exact_kernels_simps:
  "matmul_tb_k exact_kernels = matmul2_tb" "matmul_k exact_kernels = matmul2"
  "add_rows exact_kernels = add2"
  by (auto simp: fun_eq_iff matmul_tb_k_def matmul2_tb_def matmul_k_def matmul2_def
      add_rows_def add2_def add1_def exact_kernels_def)

lemma tf_matmul_on_exact:
  "tf_matmul_on exact_kernels (of_tensor4 a) (of_tensor4 b) tb = of_tensor4 (tf_matmul a b tb)"
  by (simp add: tf_matmul_on_def tf_matmul_def zip_mats_of_tensor4 exact_kernels_simps)

lemma bcast_map: "bcast n (map f xs) = map f (bcast n xs)"
proof (cases xs)
  case Nil
  then show ?thesis by (simp add: bcast_def)
next
  case (Cons x r)
  then show ?thesis by (cases r) (simp_all add: bcast_def)
qed

lemma rank_mats: "rank (Batch (map Mat x)) = 3"
  by (cases x) simp_all

lemma rank_of_tensor4:
  assumes "t \<noteq> []"
  shows "rank (of_tensor4 t) = 4"
proof -
  from assms obtain x r where t: "t = x # r" by (cases t) auto
  have "rank (of_tensor4 t) = Suc (rank (Batch (map Mat x)))"
    by (simp add: t of_tensor4_def)
  then show ?thesis
    by (simp only: rank_mats)
qed

lemma bc_add_Batch:
  "\<not> rank (Batch ms) < rank (Batch ts) \<Longrightarrow>
     bc_add K (Batch ts) (Batch ms) = Batch (map2 (bc_add K) ts (bcast (length ts) ms))"
  by (simp add: map2_apply del: rank.simps)

lemma bc_add_exact:
  assumes "a \<noteq> []" "m \<noteq> []"
  shows "bc_add exact_kernels (of_tensor4 a) (of_tensor4 m) = of_tensor4 (add4 a m)"
proof -
  have inner: "bc_add exact_kernels (Batch (map Mat x)) (Batch (map Mat y))
      = Batch (map Mat (add3 x y))" for x y
  proof -
    have r: "\<not> rank (Batch (map Mat y)) < rank (Batch (map Mat x))"
      by (simp only: rank_mats less_irrefl not_False_eq_True)
    have "map2 (bc_add exact_kernels) (map Mat x) (map Mat (bcast (length x) y))
        = map Mat (map2 add2 x (bcast (length x) y))"
      by (rule map2_maps) (simp add: exact_kernels_simps)
    then show ?thesis
      by (simp only: bc_add_Batch [OF r] length_map bcast_map add3_def)
  qed
  have r: "\<not> rank (Batch (map (\<lambda>x. Batch (map Mat x)) m))
      < rank (Batch (map (\<lambda>x. Batch (map Mat x)) a))"
    using assms [THEN rank_of_tensor4] by (simp only: of_tensor4_def)
  have "map2 (bc_add exact_kernels) (map (\<lambda>x. Batch (map Mat x)) a)
          (map (\<lambda>x. Batch (map Mat x)) (bcast (length a) m))
      = map (\<lambda>x. Batch (map Mat x)) (map2 add3 a (bcast (length a) m))"
    by (rule map2_maps) (rule inner)
  then show ?thesis
    by (simp only: of_tensor4_def bc_add_Batch [OF r] length_map bcast_map add4_def)
qed

lemma shaped_of_tensor4: "shape4 B H n d t \<Longrightarrow> shaped [B, H] n d (of_tensor4 t)"
  by (simp add: shape4_def shape3_def of_tensor4_def list_all_iff)

lemma scaled_dot_product_attention_exact:
  assumes q: "shape4 B H n d q" and k: "shape4 B H m d k"
    and pos: "0 < B" "0 < H" "0 < m"
    and mk: "mask_ok B H n m msk"
  shows "scaled_dot_product_attention_on exact_kernels (of_tensor4 q) (of_tensor4 k)
           (of_tensor4 v) (map_option of_tensor4 msk)
         = (of_tensor4 (fst (scaled_dot_product_attention q k v msk)),
            of_tensor4 (snd (scaled_dot_product_attention q k v msk)))"
proof -
  have ld: "last_dim k = d"
    using k pos by (rule last_dim_shape)
  have la: "last_axis (of_tensor4 k) = d"
    by (rule last_axis_shaped [OF shaped_of_tensor4 [OF k]]) (simp_all add: pos)
  have kk: "kdiv exact_kernels = (/)" "ksqrt exact_kernels = sqrt" "kcast exact_kernels = real"
    "kmul exact_kernels = (*)" "kconst exact_kernels = (\<lambda>c. c)"
    by (simp_all add: exact_kernels_def)
  have sc: "map_tensor (\<lambda>x. kdiv exact_kernels x
                (ksqrt exact_kernels (kcast exact_kernels (last_axis (of_tensor4 k)))))
              (tf_matmul_on exact_kernels (of_tensor4 q) (of_tensor4 k) True)
      = of_tensor4 (scaled_logits q k)"
    by (simp add: kk la ld scaled_logits_def div_scalar_def tf_matmul_on_exact
        map_tensor_of_tensor4)
  have ne: "scaled_logits q k \<noteq> []"
    using logits_entry [OF q k pos] pos(1) by (auto simp: shape4_def)
  have ml: "logits_on exact_kernels (of_tensor4 q) (of_tensor4 k) (map_option of_tensor4 msk)
      = of_tensor4 (masked_logits q k msk)"
  proof (cases msk)
    case None
    show ?thesis
      by (simp only: None option.map logits_on_def Let_def option.case sc masked_logits_def)
  next
    case (Some t)
    with mk pos(1) have "t \<noteq> []"
      by (auto simp: mask_ok_def broadcastable_def bsize_def)
    then have ne2: "mul_scalar t (- (10 ^ 9)) \<noteq> []"
      by (simp add: mul_scalar_def)
    have pm: "map_tensor (\<lambda>x. kmul exact_kernels x (kconst exact_kernels (- (10 ^ 9))))
                (of_tensor4 t)
        = of_tensor4 (mul_scalar t (- (10 ^ 9)))"
      by (simp only: kk map_tensor_of_tensor4 mul_scalar_def)
    show ?thesis
      by (simp only: Some option.map logits_on_def Let_def option.case sc pm
          bc_add_exact [OF ne ne2] masked_logits_def)
  qed
  have ks: "ksoftmax exact_kernels = softmax"
    by (simp add: exact_kernels_def)
  show ?thesis
    unfolding sdpa_on_unfold sdpa_unfold ml
    by (simp add: on_rows_of_tensor4 softmax_last_def tf_matmul_on_exact ks)
qed

subsection \<open>Scaled dot-product attention, entry by entry\<close>

text \<open>
  C1. For query, key and value tensors of any rank with the same batch axes, \<open>n\<close> query
  positions and \<open>m > 0\<close> key and value positions, an optional mask that broadcasts to the
  logits, and any arithmetic whose softmax keeps the length of a row, the function
  returns two tensors of the shapes \<open>(..., n, depth_v)\<close> and \<open>(..., n, m)\<close>. Every row of
  the second result is the softmax over the key axis of the logits of that query, the
  logit of query \<open>i\<close> and key \<open>j\<close> being their dot product divided by the square root of
  the depth, plus the mask entry times \<open>-1e9\<close> when a mask is supplied. Every entry of the
  first result is the dot product of that row of weights with a column of \<open>v\<close>. With
  \<open>mask = None\<close> the logit carries no penalty term.
\<close>

theorem scaled_dot_product_attention_on_entries:
  assumes "shaped ds n d q" and "shaped ds m d k" and "shaped ds m dv v"
    and "list_all ((<) 0) ds" and "0 < m"
    and "mask_ok_on ds n m msk"
    and "\<forall>r. length (ksoftmax K r) = length r"
  shows "shaped ds n dv (fst (scaled_dot_product_attention_on K q k v msk))
    \<and> shaped ds n m (snd (scaled_dot_product_attention_on K q k v msk))
    \<and> (\<forall>idx. inside ds idx \<longrightarrow> (\<forall>i<n.
          slice idx (snd (scaled_dot_product_attention_on K q k v msk)) ! i
            = ksoftmax K (map (logit_on K q k msk idx i) [0..<m])
        \<and> (\<forall>c<dv. slice idx (fst (scaled_dot_product_attention_on K q k v msk)) ! i ! c
              = kdot K (slice idx (snd (scaled_dot_product_attention_on K q k v msk)) ! i)
                  (map (\<lambda>row. row ! c) (slice idx v)))))
    \<and> (\<forall>idx i j. logit_on K q k None idx i j
          = kdiv K (kdot K (slice idx q ! i) (slice idx k ! j))
              (ksqrt K (kcast K (length (slice idx k ! j)))))"
  using assms by (rule sdpa_on_rows)

subsection \<open>Rounding to single precision\<close>

lemma round_even_error: "\<bar>of_int (round_even y) - y\<bar> \<le> 1 / 2"
  unfolding round_even_def Let_def by (auto simp: abs_le_iff)

lemma round_even_of_int: "round_even (of_int k) = k"
  by (simp add: round_even_def)

lemma round_even_nonneg: "0 \<le> y \<Longrightarrow> 0 \<le> round_even y"
  unfolding round_even_def Let_def by auto

lemma round_even_nonpos: "y \<le> 0 \<Longrightarrow> round_even y \<le> 0"
proof -
  assume y: "y \<le> 0"
  show ?thesis
  proof (cases "y = 0")
    case True
    then show ?thesis using round_even_of_int [of 0] by simp
  next
    case False
    with y have "y < 0" by simp
    then have "\<lfloor>y\<rfloor> \<le> - 1" by (simp add: floor_le_iff)
    then show ?thesis
      unfolding round_even_def Let_def by auto
  qed
qed

lemma round_even_small: "0 \<le> y \<Longrightarrow> y < 1 / 2 \<Longrightarrow> round_even y = 0"
proof -
  assume y: "0 \<le> y" "y < 1 / 2"
  then have "\<lfloor>y\<rfloor> = 0" by (simp add: floor_eq_iff)
  with y show ?thesis by (simp add: round_even_def)
qed

lemma ulp_pos: "0 < ulp x"
  by (simp add: ulp_def)

lemma near_error_ulp: "\<bar>near x - x\<bar> \<le> ulp x / 2"
proof (cases "x = 0")
  case True
  then show ?thesis using ulp_pos [of x] by (simp add: near_def)
next
  case False
  have "near x - x = ulp x * (of_int (round_even (x / ulp x)) - x / ulp x)"
    using False ulp_pos [of x] by (simp add: near_def algebra_simps)
  then have "\<bar>near x - x\<bar> = ulp x * \<bar>of_int (round_even (x / ulp x)) - x / ulp x\<bar>"
    using ulp_pos [of x] by (simp add: abs_mult)
  also have "\<dots> \<le> ulp x * (1 / 2)"
    using ulp_pos [of x] round_even_error [of "x / ulp x"] by (intro mult_left_mono) simp_all
  finally show ?thesis by simp
qed

lemma half_ulp_le:
  assumes x: "x \<noteq> 0"
  shows "ulp x / 2 \<le> \<bar>x\<bar> / 2 ^ 24 + 1 / 2 ^ 150"
proof (cases "- 126 \<le> \<lfloor>log 2 \<bar>x\<bar>\<rfloor>")
  case True
  then have e: "expo x = \<lfloor>log 2 \<bar>x\<bar>\<rfloor>" by (simp add: expo_def)
  from x have "0 < \<bar>x\<bar>" by simp
  from floor_log_eq_powr_iff [OF this, of 2 "expo x"] e
  have "2 powr (of_int (expo x)) \<le> \<bar>x\<bar>" by simp
  moreover have "ulp x / 2 = 2 powr (of_int (expo x)) / 2 ^ 24"
    by (simp add: ulp_def powr_diff)
  ultimately have "ulp x / 2 \<le> \<bar>x\<bar> / 2 ^ 24"
    by (simp add: divide_right_mono)
  then show ?thesis by (simp add: add_increasing2)
next
  case False
  then have "expo x = - 126"
    by (auto simp: expo_def max_def)
  then have "ulp x / 2 = 1 / 2 ^ 150"
    by (simp add: ulp_def powr_minus_divide)
  then show ?thesis by simp
qed

lemma near_error: "\<bar>near x - x\<bar> \<le> \<bar>x\<bar> / 2 ^ 24 + 1 / 2 ^ 150"
proof (cases "x = 0")
  case True
  then show ?thesis by (simp add: near_def)
next
  case False
  with near_error_ulp [of x] half_ulp_le [of x] show ?thesis by linarith
qed

lemma near_nonneg: "0 \<le> x \<Longrightarrow> 0 \<le> near x"
  using ulp_pos [of x] round_even_nonneg [of "x / ulp x"] by (simp add: near_def)

lemma near_nonpos: "x \<le> 0 \<Longrightarrow> near x \<le> 0"
proof -
  assume "x \<le> 0"
  then have "x / ulp x \<le> 0"
    using ulp_pos [of x] by (simp add: divide_le_0_iff)
  from round_even_nonpos [OF this] show ?thesis
    using ulp_pos [of x] by (simp add: near_def mult_le_0_iff)
qed

lemma expo_eq:
  assumes "x \<noteq> 0" "2 powr (of_int e) \<le> \<bar>x\<bar>" "\<bar>x\<bar> < 2 powr (of_int e + 1)" "- 126 \<le> e"
  shows "expo x = e"
proof -
  from assms(1) have "0 < \<bar>x\<bar>" by simp
  from floor_log_eq_powr_iff [OF this, of 2 e] assms(2,3) have "\<lfloor>log 2 \<bar>x\<bar>\<rfloor> = e" by simp
  with assms(4) show ?thesis by (simp add: expo_def)
qed

lemma near_exact:
  assumes "x \<noteq> 0" "2 powr (of_int e) \<le> \<bar>x\<bar>" "\<bar>x\<bar> < 2 powr (of_int e + 1)" "- 126 \<le> e"
    and "x = of_int k * 2 powr (of_int e - 23)"
  shows "near x = x"
proof -
  have e: "expo x = e" using assms(1-4) by (rule expo_eq)
  have u: "ulp x = 2 powr (of_int e - 23)"
    by (simp add: ulp_def e)
  have x: "x = of_int k * ulp x"
    unfolding u by (rule assms(5))
  have "x / ulp x = of_int k"
    using ulp_pos [of x] by (subst x) simp
  then have "near x = ulp x * of_int k"
    using assms(1) by (simp add: near_def round_even_of_int)
  also have "\<dots> = x"
    by (metis x mult.commute)
  finally show ?thesis .
qed

lemma near_eval:
  assumes "x \<noteq> 0" "2 powr (of_int e) \<le> \<bar>x\<bar>" "\<bar>x\<bar> < 2 powr (of_int e + 1)" "- 126 \<le> e"
  shows "near x = 2 powr (of_int e - 23) * of_int (round_even (x / 2 powr (of_int e - 23)))"
  using assms(1) expo_eq [OF assms] by (simp add: near_def ulp_def)

lemma round_even_down: "of_int f \<le> y \<Longrightarrow> y < of_int f + 1 / 2 \<Longrightarrow> round_even y = f"
proof -
  assume a: "of_int f \<le> y" "y < of_int f + 1 / 2"
  then have "\<lfloor>y\<rfloor> = f" by (simp add: floor_eq_iff)
  with a show ?thesis by (simp add: round_even_def)
qed

lemma round_even_up: "of_int f - 1 / 2 < y \<Longrightarrow> y \<le> of_int f \<Longrightarrow> round_even y = f"
proof -
  assume a: "of_int f - 1 / 2 < y" "y \<le> of_int f"
  show ?thesis
  proof (cases "y = of_int f")
    case True
    then show ?thesis by (simp add: round_even_of_int)
  next
    case False
    with a have "\<lfloor>y\<rfloor> = f - 1" by (simp add: floor_eq_iff)
    with a False show ?thesis by (simp add: round_even_def)
  qed
qed

lemma near_0: "near 0 = 0"
  by (simp add: near_def)

lemma near_1: "near 1 = 1"
  by (rule near_exact [of 1 0 "2 ^ 23"]) (simp_all add: powr_minus_divide)

lemma near_2: "near 2 = 2"
  by (rule near_exact [of 2 1 "2 ^ 23"]) (simp_all add: powr_minus_divide)

lemma near_half: "near (1 / 2) = 1 / 2"
  by (rule near_exact [of "1 / 2" "- 1" "2 ^ 23"]) (simp_all add: powr_minus_divide)

lemma near_20: "near 20 = 20"
  by (rule near_exact [of 20 4 "20 * 2 ^ 19"]) (simp_all add: powr_minus_divide)

lemma near_penalty: "near (- (10 ^ 9)) = - (10 ^ 9)"
  by (rule near_exact [of "- (10 ^ 9)" 29 "- 15625000"]) simp_all

lemma near_penalty_20: "near (20 - 10 ^ 9) = - (10 ^ 9)"
proof -
  have "near (20 - 10 ^ 9)
      = 2 powr (of_int 29 - 23) * of_int (round_even ((20 - 10 ^ 9) / 2 powr (of_int 29 - 23)))"
    by (rule near_eval) simp_all
  also have "round_even ((20 - 10 ^ 9) / 2 powr (of_int 29 - 23)) = - 15625000"
    by (rule round_even_down) simp_all
  finally show ?thesis by simp
qed

lemma near_2_128: "near (2 ^ 128) = 2 ^ 128"
  by (rule near_exact [of "2 ^ 128" 128 "2 ^ 23"]) simp_all

lemma near_underflow:
  assumes "0 \<le> y" "y < 1 / 2 ^ 150"
  shows "near y = 0"
proof (cases "y = 0")
  case True
  then show ?thesis by (simp add: near_0)
next
  case False
  with assms have pos: "0 < y" by simp
  have "y < 2 powr (- 126)"
  proof -
    have "(1::real) / 2 ^ 150 \<le> 1 / 2 ^ 126"
      by (intro divide_left_mono power_increasing) simp_all
    with assms(2) show ?thesis by (simp add: powr_minus_divide)
  qed
  then have "log 2 y < - 126"
    using pos by (simp add: log_less_iff)
  then have "\<lfloor>log 2 \<bar>y\<bar>\<rfloor> \<le> - 126"
    using pos by (simp add: floor_le_iff)
  then have e: "expo y = - 126"
    by (simp add: expo_def)
  then have u: "ulp y = 1 / 2 ^ 149"
    by (simp add: ulp_def powr_minus_divide)
  have "y / ulp y < 1 / 2"
    using assms(2) by (simp add: u)
  moreover have "0 \<le> y / ulp y"
    using assms(1) by (simp add: u)
  ultimately have "round_even (y / ulp y) = 0"
    by (intro round_even_small)
  with False show ?thesis by (simp add: near_def)
qed

lemma exp_underflow:
  fixes x :: real
  assumes "x \<le> - 200"
  shows "0 \<le> exp x" "exp x < 1 / 2 ^ 150"
proof -
  show "0 \<le> exp x" by simp
  have "(2::real) \<le> exp 1"
    using exp_ge_add_one_self [of 1] by simp
  then have "(2::real) ^ 200 \<le> exp 1 ^ 200"
    by (intro power_mono) simp_all
  also have "exp (1::real) ^ 200 = exp 200"
    using exp_of_nat_mult [of 200 "1 :: real"] by simp
  finally have big: "(2::real) ^ 200 \<le> exp 200" .
  have "exp x \<le> exp (- 200)"
    using assms by simp
  also have "exp (- 200 :: real) = 1 / exp 200"
    by (simp add: exp_minus inverse_eq_divide)
  also have "\<dots> \<le> 1 / 2 ^ 200"
    using big by (intro divide_left_mono) simp_all
  also have "(1::real) / 2 ^ 200 < 1 / 2 ^ 150"
    by (intro divide_strict_left_mono power_strict_increasing) simp_all
  finally show "exp x < 1 / 2 ^ 150" .
qed

lemma rnd_fin:
  assumes "\<bar>x\<bar> \<le> 2 ^ 127"
  shows "rnd x = Fin (near x)"
proof -
  have "\<bar>near x\<bar> \<le> \<bar>x\<bar> + \<bar>near x - x\<bar>"
    by linarith
  also have "\<dots> \<le> \<bar>x\<bar> + (\<bar>x\<bar> / 2 ^ 24 + 1 / 2 ^ 150)"
    using near_error [of x] by simp
  also have "\<dots> \<le> 2 ^ 127 + (2 ^ 127 / 2 ^ 24 + 1 / 2 ^ 150)"
    using assms by (intro add_mono divide_right_mono) simp_all
  also have "\<dots> < (2 ^ 128 :: real)"
    by simp
  finally show ?thesis
    by (simp add: rnd_def)
qed

lemma rnd_0: "rnd 0 = Fin 0"
  by (simp add: rnd_fin near_0)

lemma rnd_1: "rnd 1 = Fin 1"
  by (simp add: rnd_fin near_1)

lemma rnd_nonpos:
  assumes "x \<le> 0"
  shows "rnd x = NInf \<or> (\<exists>y\<le>0. rnd x = Fin y)"
  using assms near_nonpos [OF assms] by (auto simp: rnd_def)

lemma softmax32_length: "length (softmax32 xs) = length xs"
  by (simp add: softmax32_def Let_def)

lemma foldl_fmax_fin: "foldl fmax (Fin x) (map Fin r) = Fin (foldl max x r)"
  by (induction r arbitrary: x) simp_all

lemma max32_fin:
  assumes "xs \<noteq> []"
  shows "max32 (map Fin xs) = Fin (Max (set xs))"
proof -
  from assms obtain x r where xs: "xs = x # r" by (cases xs) auto
  have "foldl max x r = fold max r x"
    by (simp add: foldl_conv_fold max.commute)
  also have "\<dots> = Max (set (x # r))"
    by (rule Max.set_eq_fold [symmetric])
  finally have "foldl max x r = Max (set (x # r))" .
  then show ?thesis
    by (simp add: max32_def xs foldl_fmax_fin)
qed

lemma rnd_2: "rnd 2 = Fin 2"
  by (simp add: rnd_fin near_2)

lemma rnd_half: "rnd (1 / 2) = Fin (1 / 2)"
  by (simp add: rnd_fin near_half)

lemma rnd_20: "rnd 20 = Fin 20"
  by (simp add: rnd_fin near_20)

lemma rnd_penalty: "rnd (- 1000000000) = Fin (- 1000000000)"
proof -
  have "rnd (- (10 ^ 9)) = Fin (near (- (10 ^ 9)))"
    by (rule rnd_fin) simp
  then show ?thesis
    using near_penalty by simp
qed

lemma rnd_penalty_20: "rnd (- 999999980) = Fin (- 1000000000)"
proof -
  have "rnd (20 - 10 ^ 9) = Fin (near (20 - 10 ^ 9))"
    by (rule rnd_fin) simp
  then show ?thesis
    using near_penalty_20 by simp
qed

lemma rnd_2_128: "rnd (2 ^ 128) = PInf"
  using near_2_128 by (simp add: rnd_def)

lemma float32_kernels_simps:
  "kdot float32_kernels = dot32" "ksoftmax float32_kernels = softmax32"
  "kadd float32_kernels = fadd" "kmul float32_kernels = fmul" "kdiv float32_kernels = fdiv"
  "ksqrt float32_kernels = fsqrt" "kcast float32_kernels = (\<lambda>n. rnd (real n))"
  "kconst float32_kernels = rnd"
  by (simp_all add: float32_kernels_def)

text \<open>
  One query and two keys in single precision, both keys masked: the penalty absorbs the
  scores 0 and 20, and both weights are one half.
\<close>

theorem scaled_dot_product_attention_on_entries_witness:
  "shaped [] 1 1 (Mat [[Fin 1]]) \<and> shaped [] 2 1 (Mat [[Fin 0], [Fin 20]])
   \<and> shaped [] 2 1 (Mat [[Fin 1], [Fin 1]])
   \<and> mask_ok_on [] 1 2 (Some (Mat [[Fin 1, Fin 1]]))
   \<and> inside [] []
   \<and> slice [] (snd (scaled_dot_product_attention_on float32_kernels (Mat [[Fin 1]])
        (Mat [[Fin 0], [Fin 20]]) (Mat [[Fin 1], [Fin 1]]) (Some (Mat [[Fin 1, Fin 1]])))) ! 0
       = softmax32 (map (logit_on float32_kernels (Mat [[Fin 1]]) (Mat [[Fin 0], [Fin 20]])
           (Some (Mat [[Fin 1, Fin 1]])) [] 0) [0..<2])
   \<and> softmax32 (map (logit_on float32_kernels (Mat [[Fin 1]]) (Mat [[Fin 0], [Fin 20]])
           (Some (Mat [[Fin 1, Fin 1]])) [] 0) [0..<2]) = [Fin (1 / 2), Fin (1 / 2)]"
proof -
  have q: "shaped [] 1 1 (Mat [[Fin 1]])"
    and k: "shaped [] 2 1 (Mat [[Fin 0], [Fin 20]])"
    and v: "shaped [] 2 1 (Mat [[Fin 1], [Fin 1]])"
    by (simp_all add: shape2_def shape1_def)
  have mk: "mask_ok_on [] 1 2 (Some (Mat [[Fin 1, Fin 1]]))"
    by (simp add: mask_ok_on_def bsize_def)
  have ds: "list_all ((<) 0) ([] :: nat list)" and m: "0 < (2 :: nat)" and i: "0 < (1 :: nat)"
    by simp_all
  have idx: "inside [] []"
    by (simp add: inside_def)
  have soft: "\<forall>r. length (ksoftmax float32_kernels r) = length r"
    by (simp add: float32_kernels_simps softmax32_length)
  have l0: "logit_on float32_kernels (Mat [[Fin 1]]) (Mat [[Fin 0], [Fin 20]])
      (Some (Mat [[Fin 1, Fin 1]])) [] 0 0 = Fin (- 1000000000)"
    by (simp add: logit_on_def float32_kernels_simps dot32_def bnth_def rnd_0 rnd_1 rnd_penalty)
  have l1: "logit_on float32_kernels (Mat [[Fin 1]]) (Mat [[Fin 0], [Fin 20]])
      (Some (Mat [[Fin 1, Fin 1]])) [] 0 (Suc 0) = Fin (- 1000000000)"
    by (simp add: logit_on_def float32_kernels_simps dot32_def bnth_def rnd_0 rnd_1 rnd_20
        rnd_penalty rnd_penalty_20)
  have up: "[0..<2] = [0, Suc 0]"
    by (simp add: upt_rec)
  have sm: "softmax32 (map (logit_on float32_kernels (Mat [[Fin 1]]) (Mat [[Fin 0], [Fin 20]])
           (Some (Mat [[Fin 1, Fin 1]])) [] 0) [0..<2]) = [Fin (1 / 2), Fin (1 / 2)]"
    by (simp add: up l0 l1 softmax32_def max32_def sum32_def fsub_def rnd_0 rnd_1 rnd_2 rnd_half)
  from scaled_dot_product_attention_on_entries [OF q k v ds m mk soft] idx i q k v mk sm
  show ?thesis
    by (simp only: float32_kernels_simps)
qed

subsection \<open>The softmax of a row in single precision\<close>

lemma pow_upper:
  fixes x :: real
  assumes "0 \<le> x" "real k * x \<le> 1"
  shows "(1 + x) ^ k \<le> 1 + 2 * (real k * x)"
proof -
  have "(1 + x) ^ k \<le> exp x ^ k"
    using assms(1) by (intro power_mono exp_ge_add_one_self) simp_all
  also have "\<dots> = exp (real k * x)"
    by (simp add: exp_of_nat_mult)
  also have "\<dots> \<le> 1 + real k * x + (real k * x)\<^sup>2"
    using assms by (intro exp_bound) simp_all
  also have "\<dots> \<le> 1 + real k * x + real k * x * 1"
  proof -
    have "(real k * x) * (real k * x) \<le> (real k * x) * 1"
      using assms by (intro mult_left_mono) simp_all
    then show ?thesis by (simp add: power2_eq_square mult.commute)
  qed
  finally show ?thesis by (simp add: mult.commute)
qed

lemma pow_lower:
  fixes x :: real
  assumes "0 \<le> x" "x \<le> 1"
  shows "1 - real k * x \<le> (1 - x) ^ k"
  using Bernoulli_inequality [of "- x" k] assms by simp

lemma sum_list_le_const:
  fixes xs :: "real list"
  assumes "\<forall>e\<in>set xs. e \<le> c"
  shows "sum_list xs \<le> c * real (length xs)"
  using assms by (induction xs) (auto simp: algebra_simps)

lemma sum32_snoc: "sum32 (xs @ [x]) = fadd (sum32 xs) x"
  by (simp add: sum32_def)

lemma sum32_bounds:
  assumes "\<forall>e\<in>set es. 0 \<le> e \<and> e \<le> 2" "length es \<le> 2 ^ 16"
  shows "\<exists>S. sum32 (map Fin es) = Fin S \<and> 0 \<le> S \<and>
           (1 - 1 / 2 ^ 24) ^ length es * sum_list es - real (length es) * (1 / 2 ^ 150) \<le> S \<and>
           S \<le> (1 + 1 / 2 ^ 24) ^ length es * (sum_list es + real (length es) * (1 / 2 ^ 150))"
  using assms
proof (induction es rule: rev_induct)
  case Nil
  show ?case by (simp add: sum32_def)
next
  case (snoc x xs)
  define u :: real where "u = 1 / 2 ^ 24"
  define h :: real where "h = 1 / 2 ^ 150"
  define k where "k = length xs"
  define T where "T = sum_list xs"
  define A where "A = (1 + u) ^ k"
  define B where "B = (1 - u) ^ k"
  have u: "0 < u" "u \<le> 1" and h: "0 < h" "h \<le> 1"
    by (simp_all add: u_def h_def)
  have x: "0 \<le> x" "x \<le> 2" and xs: "\<forall>e\<in>set xs. 0 \<le> e \<and> e \<le> 2" and k: "k \<le> 2 ^ 16"
    using snoc.prems by (simp_all add: k_def)
  from snoc.IH [OF xs] k obtain S where S: "sum32 (map Fin xs) = Fin S" "0 \<le> S"
      "B * T - real k * h \<le> S" "S \<le> A * (T + real k * h)"
    by (auto simp: A_def B_def u_def h_def k_def T_def)
  have T: "0 \<le> T" "T \<le> 2 * real k"
  proof -
    show "0 \<le> T" unfolding T_def using xs by (intro sum_list_nonneg) simp
    show "T \<le> 2 * real k"
      unfolding T_def k_def using xs by (intro sum_list_le_const) simp
  qed
  have rk: "real k \<le> 2 ^ 16"
    using k by (metis of_nat_le_iff of_nat_numeral of_nat_power)
  have ku: "real k * u \<le> 1 / 2 ^ 8"
  proof -
    have "real k * u \<le> 2 ^ 16 * u"
      using rk u by (intro mult_right_mono) simp_all
    then show ?thesis by (simp add: u_def)
  qed
  have A: "1 \<le> A" "A \<le> 2"
  proof -
    show "1 \<le> A" unfolding A_def using u by (intro one_le_power) simp
    have "A \<le> 1 + 2 * (real k * u)"
      unfolding A_def using u ku by (intro pow_upper) simp_all
    then show "A \<le> 2" using ku by simp
  qed
  have B: "0 \<le> B" "B \<le> 1"
    unfolding B_def using u by (simp_all add: power_le_one)
  have Sub: "S \<le> 2 ^ 19"
  proof -
    have "A * (T + real k * h) \<le> 2 * (2 * 2 ^ 16 + 2 ^ 16 * 1)"
      using A T rk h by (intro mult_mono add_mono) (simp_all add: mult_nonneg_nonneg)
    then show ?thesis using S(4) by simp
  qed
  define z where "z = S + x"
  have z: "0 \<le> z" "z \<le> 2 ^ 127"
    using S(2) x Sub by (simp_all add: z_def)
  then have fin: "rnd z = Fin (near z)"
    by (intro rnd_fin) simp
  have nz: "0 \<le> near z"
    using z(1) by (rule near_nonneg)
  have err: "\<bar>near z - z\<bar> \<le> u * z + h"
    using near_error [of z] z(1) by (simp add: u_def h_def)
  have up: "near z \<le> (1 + u) * A * (T + x + (real k + 1) * h)"
  proof -
    have "near z \<le> (1 + u) * z + h"
      using err by (simp add: algebra_simps)
    also have "\<dots> \<le> (1 + u) * (A * (T + real k * h) + x) + h"
      using S(4) u by (simp add: z_def)
    also have "\<dots> \<le> (1 + u) * (A * (T + real k * h) + A * x) + (1 + u) * A * h"
    proof -
      have "x \<le> A * x" using A x by (simp add: mult_le_cancel_right1)
      moreover have "h \<le> (1 + u) * A * h"
      proof -
        have "1 * 1 \<le> (1 + u) * A" using A u by (intro mult_mono) simp_all
        then show ?thesis using h by (simp add: mult_le_cancel_right1)
      qed
      moreover have "(1 + u) * (A * (T + real k * h) + x) \<le> (1 + u) * (A * (T + real k * h) + A * x)"
        using \<open>x \<le> A * x\<close> u by (intro mult_left_mono) simp_all
      ultimately show ?thesis by linarith
    qed
    also have "\<dots> = (1 + u) * A * (T + x + (real k + 1) * h)"
      by (simp add: algebra_simps)
    finally show ?thesis .
  qed
  have low: "(1 - u) * B * (T + x) - (real k + 1) * h \<le> near z"
  proof -
    have "(1 - u) * B * (T + x) - (real k + 1) * h
        = (1 - u) * (B * T) + (1 - u) * (B * x) - real k * h - h"
      by (simp add: algebra_simps)
    also have "\<dots> \<le> (1 - u) * (B * T) + (1 - u) * x - (1 - u) * (real k * h) - h"
    proof -
      have "B * x \<le> x" using B x by (simp add: mult_le_cancel_right2)
      then have "(1 - u) * (B * x) \<le> (1 - u) * x"
        using u by (intro mult_left_mono) simp_all
      moreover have "(1 - u) * (real k * h) \<le> 1 * (real k * h)"
        using u h by (intro mult_right_mono) simp_all
      ultimately show ?thesis by linarith
    qed
    also have "\<dots> = (1 - u) * (B * T - real k * h + x) - h"
      by (simp add: algebra_simps)
    also have "\<dots> \<le> (1 - u) * z - h"
    proof -
      have "(1 - u) * (B * T - real k * h + x) \<le> (1 - u) * z"
        using S(3) u by (intro mult_left_mono) (simp_all add: z_def)
      then show ?thesis by simp
    qed
    also have "\<dots> \<le> near z"
      using err by (simp add: algebra_simps)
    finally show ?thesis .
  qed
  have "sum32 (map Fin (xs @ [x])) = Fin (near z)"
    by (simp add: sum32_snoc S(1) fin [unfolded z_def] z_def)
  moreover have "(1 - 1 / 2 ^ 24) ^ length (xs @ [x]) * sum_list (xs @ [x])
      - real (length (xs @ [x])) * (1 / 2 ^ 150) = (1 - u) * B * (T + x) - (real k + 1) * h"
    by (simp add: u_def h_def B_def T_def k_def algebra_simps)
  moreover have "(1 + 1 / 2 ^ 24) ^ length (xs @ [x]) * (sum_list (xs @ [x])
      + real (length (xs @ [x])) * (1 / 2 ^ 150)) = (1 + u) * A * (T + x + (real k + 1) * h)"
    by (simp add: u_def h_def A_def T_def k_def algebra_simps)
  ultimately show ?case
    using nz up low by (metis (no_types, lifting))
qed

lemma ratio_close:
  fixes T S a b A B :: real
  assumes a: "0 \<le> a" "a \<le> 1 / 8" and b: "0 \<le> b" "2 * b \<le> a" and T: "1 \<le> T"
    and up: "S \<le> A * (T + b)" and low: "B * T - b \<le> S"
    and A: "A \<le> 1 + 2 * a" and B: "1 - a \<le> B"
  shows "1 / 2 \<le> S" and "\<bar>T / S - 1\<bar> \<le> 3 * a"
proof -
  have aa: "a * a \<le> a * (1 / 8)"
    using a by (intro mult_left_mono) simp_all
  have ab: "a * b \<le> (1 / 8) * b"
    using a b by (intro mult_right_mono) simp_all
  have lo: "(1 - 2 * a) * T \<le> S"
  proof -
    have "(1 - a) * T \<le> B * T"
      using B T by (intro mult_right_mono) simp_all
    moreover have "b * 1 \<le> b * T"
      using b T by (intro mult_left_mono) simp_all
    moreover have "b * T \<le> a * T"
      using b a T by (intro mult_right_mono) simp_all
    ultimately show ?thesis
      using low by (simp add: algebra_simps)
  qed
  have hi: "S \<le> (1 + 3 * a) * T"
  proof -
    have "A * (T + b) \<le> (1 + 2 * a) * (T + b)"
      using A T b by (intro mult_right_mono) simp_all
    also have "\<dots> \<le> (1 + 2 * a) * (T + b * T)"
    proof -
      have "b * 1 \<le> b * T"
        using b T by (intro mult_left_mono) simp_all
      then show ?thesis
        using a by (intro mult_left_mono) simp_all
    qed
    also have "\<dots> = (1 + 2 * a + b + 2 * (a * b)) * T"
      by (simp add: algebra_simps)
    also have "\<dots> \<le> (1 + 3 * a) * T"
      using ab b T by (intro mult_right_mono) simp_all
    finally show ?thesis
      using up by simp
  qed
  have "(1 - 2 * a) * 1 \<le> (1 - 2 * a) * T"
    using a T by (intro mult_left_mono) simp_all
  then have "1 - 2 * a \<le> (1 - 2 * a) * T"
    by simp
  then show S: "1 / 2 \<le> S"
    using lo a by linarith
  then have Sp: "0 < S" by simp
  have "T \<le> (1 + 3 * a) * S"
  proof -
    have "6 * (a * a) \<le> a"
      using aa zero_le_square [of a] by linarith
    then have "T * 1 \<le> T * (1 + a - 6 * (a * a))"
      using T by (intro mult_left_mono) simp_all
    also have "\<dots> = (1 + 3 * a) * ((1 - 2 * a) * T)"
      by (simp add: algebra_simps)
    also have "\<dots> \<le> (1 + 3 * a) * S"
      using lo a by (intro mult_left_mono) simp_all
    finally show ?thesis by simp
  qed
  then have 1: "T / S \<le> 1 + 3 * a"
    using Sp by (simp add: pos_divide_le_eq)
  have "(1 - 3 * a) * S \<le> T"
  proof -
    have "(1 - 3 * a) * S \<le> (1 - 3 * a) * ((1 + 3 * a) * T)"
      using hi a by (intro mult_left_mono) simp_all
    also have "\<dots> = T * (1 - 9 * (a * a))"
      by (simp add: algebra_simps)
    also have "\<dots> \<le> T * 1"
      using T a by (intro mult_left_mono) simp_all
    finally show ?thesis by simp
  qed
  then have 2: "1 - 3 * a \<le> T / S"
    using Sp by (simp add: pos_le_divide_eq)
  from 1 2 show "\<bar>T / S - 1\<bar> \<le> 3 * a"
    by simp
qed

lemma sum_list_approx:
  fixes f g :: "'a \<Rightarrow> real"
  assumes "\<forall>e\<in>set es. \<bar>f e - g e\<bar> \<le> c * g e + h"
  shows "\<bar>sum_list (map f es) - sum_list (map g es)\<bar>
           \<le> c * sum_list (map g es) + real (length es) * h"
  using assms
proof (induction es)
  case Nil
  show ?case by simp
next
  case (Cons e es)
  have "\<bar>f e - g e\<bar> \<le> c * g e + h"
    and "\<bar>sum_list (map f es) - sum_list (map g es)\<bar>
           \<le> c * sum_list (map g es) + real (length es) * h"
    using Cons by simp_all
  then show ?case
    by (simp add: algebra_simps)
qed

lemma sum_list_div:
  fixes es :: "real list"
  shows "sum_list (map (\<lambda>e. e / S) es) = sum_list es / S"
  by (induction es) (simp_all add: add_divide_distrib)

lemma elem_le_sum_list:
  fixes es :: "real list"
  assumes "\<forall>e\<in>set es. 0 \<le> e" "x \<in> set es"
  shows "x \<le> sum_list es"
  using assms
proof (induction es)
  case Nil
  then show ?case by simp
next
  case (Cons e es)
  have "0 \<le> sum_list es"
    using Cons.prems(1) by (intro sum_list_nonneg) simp
  then show ?case
    using Cons by auto
qed

lemma fsub_fin: "fsub (Fin x) (Fin M) = rnd (x - M)"
  by (simp add: fsub_def)

lemma fexp_shift:
  assumes "x \<le> M"
  shows "\<exists>e. fexp (fsub (Fin x) (Fin M)) = Fin e \<and> 0 \<le> e \<and> e \<le> 2 \<and> (x = M \<longrightarrow> e = 1)"
proof (cases "x = M")
  case True
  then show ?thesis
    by (simp add: fsub_fin rnd_0 rnd_1)
next
  case False
  have z: "x - M \<le> 0" using assms by simp
  from rnd_nonpos [OF z] show ?thesis
  proof
    assume "rnd (x - M) = NInf"
    then show ?thesis using False by (simp add: fsub_fin)
  next
    assume "\<exists>y\<le>0. rnd (x - M) = Fin y"
    then obtain y where y: "y \<le> 0" "rnd (x - M) = Fin y" by blast
    have e: "0 < exp y" "exp y \<le> 1" using y(1) by simp_all
    have "\<bar>exp y\<bar> \<le> 1" using e by simp
    also have "(1::real) \<le> 2 ^ 127" by simp
    finally have fin: "rnd (exp y) = Fin (near (exp y))"
      by (rule rnd_fin)
    have "near (exp y) \<le> exp y + (exp y / 2 ^ 24 + 1 / 2 ^ 150)"
      using near_error [of "exp y"] by simp
    also have "\<dots> \<le> 1 + (1 / 2 ^ 24 + 1 / 2 ^ 150)"
      using e by (intro add_mono divide_right_mono) simp_all
    also have "\<dots> \<le> 2" by simp
    finally have "near (exp y) \<le> 2" .
    moreover have "0 \<le> near (exp y)"
      by (intro near_nonneg) simp
    ultimately show ?thesis
      using False by (simp add: fsub_fin y(2) fin)
  qed
qed

lemma fexp_shift_zero:
  assumes "x - M \<le> - 300"
  shows "fexp (fsub (Fin x) (Fin M)) = Fin 0"
proof -
  have z: "x - M \<le> 0" using assms by simp
  from rnd_nonpos [OF z] show ?thesis
  proof
    assume "rnd (x - M) = NInf"
    then show ?thesis by (simp add: fsub_fin)
  next
    assume "\<exists>y\<le>0. rnd (x - M) = Fin y"
    then obtain y where y: "y \<le> 0" "rnd (x - M) = Fin y" by blast
    have "rnd (x - M) = Fin (near (x - M))"
      using y(2) by (auto simp: rnd_def split: if_splits)
    then have yn: "y = near (x - M)" using y(2) by simp
    have "near (x - M) \<le> (x - M) + (\<bar>x - M\<bar> / 2 ^ 24 + 1 / 2 ^ 150)"
      using near_error [of "x - M"] by simp
    also have "\<dots> = (x - M) * (1 - 1 / 2 ^ 24) + 1 / 2 ^ 150"
      using z by (simp add: abs_if field_simps)
    also have "\<dots> \<le> (- 300) * (1 - 1 / 2 ^ 24) + 1 / 2 ^ 150"
      using assms by (intro add_mono mult_right_mono) simp_all
    also have "\<dots> \<le> - 200" by simp
    finally have "y \<le> - 200" by (simp add: yn)
    then have "exp y < 1 / 2 ^ 150" by (rule exp_underflow)
    then have "near (exp y) = 0"
      by (intro near_underflow) simp_all
    moreover have "rnd (exp y) = Fin (near (exp y))"
    proof -
      have "\<bar>exp y\<bar> \<le> 1" using y(1) by simp
      also have "(1::real) \<le> 2 ^ 127" by simp
      finally show ?thesis by (rule rnd_fin)
    qed
    ultimately show ?thesis
      by (simp add: fsub_fin y(2))
  qed
qed

lemma softmax32_row:
  assumes ne: "xs \<noteq> []" and len: "length xs \<le> 2 ^ 16"
  shows "\<exists>ws. softmax32 (map Fin xs) = map Fin ws \<and> length ws = length xs \<and>
           (\<forall>w\<in>set ws. 0 \<le> w) \<and>
           \<bar>sum_list ws - 1\<bar> \<le> (real (length xs) + 1) / 2 ^ 22 \<and>
           (\<forall>j<length xs. xs ! j - Max (set xs) \<le> - 300 \<longrightarrow> ws ! j = 0)"
proof -
  define u :: real where "u = 1 / 2 ^ 24"
  define h :: real where "h = 1 / 2 ^ 150"
  define M where "M = Max (set xs)"
  define ev where "ev = (\<lambda>x. val32 (fexp (fsub (Fin x) (Fin M))))"
  define es where "es = map ev xs"
  define m where "m = real (length xs)"
  define T where "T = sum_list es"
  have u: "0 < u" "u \<le> 1" and h: "0 < h" "2 * h \<le> u"
    by (simp_all add: u_def h_def)
  have m: "1 \<le> m" "m \<le> 2 ^ 16"
  proof -
    have "1 \<le> length xs" using ne by (cases xs) simp_all
    then show "1 \<le> m" by (simp add: m_def)
    show "m \<le> 2 ^ 16"
      unfolding m_def using len by (metis of_nat_le_iff of_nat_numeral of_nat_power)
  qed
  have a: "0 \<le> m * u" "m * u \<le> 1 / 8"
  proof -
    show "0 \<le> m * u" using m u by simp
    have "m * u \<le> 2 ^ 16 * u"
      using m u by (intro mult_right_mono) simp_all
    then show "m * u \<le> 1 / 8" by (simp add: u_def)
  qed
  have b: "0 \<le> m * h" "2 * (m * h) \<le> m * u"
  proof -
    show "0 \<le> m * h" using m h by simp
    have "m * (2 * h) \<le> m * u"
      using m h by (intro mult_left_mono) simp_all
    then show "2 * (m * h) \<le> m * u" by (simp add: algebra_simps)
  qed
  have le: "x \<le> M" if "x \<in> set xs" for x
    unfolding M_def using that by (intro Max_ge) simp_all
  have Min: "M \<in> set xs"
    unfolding M_def using ne by (intro Max_in) simp_all
  have ev: "fexp (fsub (Fin x) (Fin M)) = Fin (ev x) \<and> 0 \<le> ev x \<and> ev x \<le> 2 \<and> (x = M \<longrightarrow> ev x = 1)"
    if "x \<in> set xs" for x
    using fexp_shift [OF le [OF that]] by (auto simp: ev_def)
  have emap: "map (\<lambda>x. fexp (fsub x (Fin M))) (map Fin xs) = map Fin es"
    using ev by (simp add: es_def)
  have erange: "\<forall>e\<in>set es. 0 \<le> e \<and> e \<le> 2"
    using ev by (auto simp: es_def)
  have "ev M = 1" using ev [OF Min] by simp
  then have one: "1 \<in> set es"
    using Min by (force simp: es_def)
  have T: "1 \<le> T"
    unfolding T_def using erange one by (intro elem_le_sum_list) simp_all
  have eslen: "length es = length xs" by (simp add: es_def)
  from sum32_bounds [OF erange] len obtain S where S: "sum32 (map Fin es) = Fin S" "0 \<le> S"
      "(1 - u) ^ length xs * T - m * h \<le> S" "S \<le> (1 + u) ^ length xs * (T + m * h)"
    by (auto simp: eslen u_def h_def m_def T_def)
  have A: "(1 + u) ^ length xs \<le> 1 + 2 * (m * u)"
    unfolding m_def using u a by (intro pow_upper) (simp_all add: m_def)
  have B: "1 - m * u \<le> (1 - u) ^ length xs"
    unfolding m_def using u by (intro pow_lower) simp_all
  have Shalf: "1 / 2 \<le> S" and ratio: "\<bar>T / S - 1\<bar> \<le> 3 * (m * u)"
    using ratio_close [OF a b T S(4) S(3) A B] by simp_all
  have Sp: "0 < S" using Shalf by simp
  define ws where "ws = map (\<lambda>e. near (e / S)) es"
  have q: "fdiv (Fin e) (Fin S) = Fin (near (e / S)) \<and> 0 \<le> near (e / S)
      \<and> \<bar>near (e / S) - e / S\<bar> \<le> u * (e / S) + h" if "e \<in> set es" for e
  proof -
    have e: "0 \<le> e" "e \<le> 2" using erange that by simp_all
    have q0: "0 \<le> e / S" using e Sp by simp
    have "e / S \<le> 2 / (1 / 2)"
      using e Shalf by (intro frac_le) simp_all
    then have "\<bar>e / S\<bar> \<le> 4" using q0 by simp
    also have "(4::real) \<le> 2 ^ 127" by simp
    finally have "rnd (e / S) = Fin (near (e / S))" by (rule rnd_fin)
    moreover have "0 \<le> near (e / S)" using q0 by (rule near_nonneg)
    moreover have "\<bar>near (e / S) - e / S\<bar> \<le> u * (e / S) + h"
      using near_error [of "e / S"] q0 by (simp add: u_def h_def)
    ultimately show ?thesis using Sp by simp
  qed
  have mx: "max32 (map Fin xs) = Fin M"
    unfolding M_def using ne by (rule max32_fin)
  have qd: "fdiv (Fin e) (Fin S) = Fin (near (e / S))" if "e \<in> set es" for e
    using q [OF that] by blast
  have "softmax32 (map Fin xs) = map (\<lambda>y. fdiv y (Fin S)) (map Fin es)"
    unfolding softmax32_def Let_def mx emap S(1) ..
  also have "\<dots> = map Fin ws"
    by (simp del: fdiv.simps add: qd ws_def)
  finally have sm: "softmax32 (map Fin xs) = map Fin ws" .
  have nonneg: "\<forall>w\<in>set ws. 0 \<le> w"
    using q by (auto simp: ws_def)
  have "\<bar>sum_list (map (\<lambda>e. near (e / S)) es) - sum_list (map (\<lambda>e. e / S) es)\<bar>
      \<le> u * sum_list (map (\<lambda>e. e / S) es) + real (length es) * h"
    using q by (intro sum_list_approx) simp
  then have approx: "\<bar>sum_list ws - T / S\<bar> \<le> u * (T / S) + m * h"
    by (simp add: ws_def sum_list_div T_def eslen m_def)
  have r2: "T / S \<le> 2" "0 \<le> T / S"
  proof -
    show "T / S \<le> 2" using ratio a by linarith
    show "0 \<le> T / S" using T Sp by simp
  qed
  have "u * (T / S) \<le> u * 2"
    using r2 u by (intro mult_left_mono) simp_all
  moreover have "m * h \<le> m * u"
    using b by linarith
  ultimately have "\<bar>sum_list ws - 1\<bar> \<le> 4 * (m * u) + 4 * u"
    using approx ratio u by linarith
  also have "\<dots> = (m + 1) / 2 ^ 22"
    by (simp add: u_def field_simps)
  finally have total: "\<bar>sum_list ws - 1\<bar> \<le> (real (length xs) + 1) / 2 ^ 22"
    by (simp add: m_def)
  have zero: "ws ! j = 0" if "j < length xs" "xs ! j - Max (set xs) \<le> - 300" for j
  proof -
    have "ev (xs ! j) = 0"
      using fexp_shift_zero [of "xs ! j" M] that(2) by (simp add: ev_def M_def)
    then show ?thesis
      using that(1) by (simp add: ws_def es_def near_0)
  qed
  show ?thesis
    using sm nonneg total zero by (intro exI [of _ ws]) (simp add: ws_def es_def)
qed

lemma masked_row_zero:
  assumes m: "m \<le> 2 ^ 16" and j: "j < m" and u: "u < m"
    and s: "\<forall>t<m. \<bar>s t\<bar> \<le> 10 ^ 8"
    and b: "\<forall>t<m. b t = Fin 0 \<or> b t = Fin 1"
    and bj: "b j = Fin 1" and bu: "b u = Fin 0"
  shows "softmax32 (map (\<lambda>t. fadd (Fin (s t)) (fmul (b t) (Fin (- 1000000000)))) [0..<m]) ! j
           = Fin 0"
proof -
  define off :: "nat \<Rightarrow> real" where "off = (\<lambda>t. if b t = Fin 1 then - 1000000000 else 0)"
  define xs where "xs = map (\<lambda>t. near (s t + off t)) [0..<m]"
  have lg: "fadd (Fin (s t)) (fmul (b t) (Fin (- 1000000000))) = Fin (near (s t + off t))"
    if t: "t < m" for t
  proof -
    have st: "\<bar>s t\<bar> \<le> 10 ^ 8" using s t by simp
    from b t have "b t = Fin 0 \<or> b t = Fin 1" by simp
    then show ?thesis
    proof
      assume b0: "b t = Fin 0"
      have "\<bar>s t\<bar> \<le> 2 ^ 127" using st by simp
      then have "rnd (s t) = Fin (near (s t))" by (rule rnd_fin)
      then show ?thesis by (simp add: b0 off_def rnd_0)
    next
      assume b1: "b t = Fin 1"
      have "\<bar>s t + - 1000000000\<bar> \<le> 2 ^ 127" using st by simp
      then have "rnd (s t + - 1000000000) = Fin (near (s t + - 1000000000))" by (rule rnd_fin)
      then show ?thesis by (simp add: b1 off_def rnd_penalty)
    qed
  qed
  have row: "map (\<lambda>t. fadd (Fin (s t)) (fmul (b t) (Fin (- 1000000000)))) [0..<m] = map Fin xs"
    using lg by (simp add: xs_def)
  have ne: "xs \<noteq> []" and len: "length xs = m"
    using j by (auto simp: xs_def)
  from softmax32_row [OF ne] m len obtain ws where ws: "softmax32 (map Fin xs) = map Fin ws"
      "length ws = m" "\<forall>t<m. xs ! t - Max (set xs) \<le> - 300 \<longrightarrow> ws ! t = 0"
    by auto
  have xj: "xs ! j \<le> - (8 * 10 ^ 8)"
  proof -
    define z where "z = s j + - 1000000000"
    have "\<bar>s j\<bar> \<le> 10 ^ 8" using s j by blast
    then have z: "z \<le> - (9 * 10 ^ 8)" "\<bar>z\<bar> \<le> 11 * 10 ^ 8"
      by (simp_all add: z_def)
    have "near z \<le> z + (\<bar>z\<bar> / 2 ^ 24 + 1 / 2 ^ 150)"
      using near_error [of z] by simp
    also have "\<dots> \<le> - (9 * 10 ^ 8) + (11 * 10 ^ 8 / 2 ^ 24 + 1 / 2 ^ 150)"
      using z by (intro add_mono divide_right_mono) simp_all
    also have "\<dots> \<le> - (8 * 10 ^ 8)" by simp
    finally show ?thesis
      using j by (simp add: xs_def off_def bj z_def)
  qed
  have xu: "- (2 * 10 ^ 8) \<le> xs ! u"
  proof -
    have "\<bar>s u\<bar> \<le> 10 ^ 8" using s u by blast
    then have z: "- (10 ^ 8) \<le> s u" "\<bar>s u\<bar> \<le> 10 ^ 8"
      by simp_all
    have "- (2 * 10 ^ 8) \<le> - (10 ^ 8) - (10 ^ 8 / 2 ^ 24 + 1 / 2 ^ 150 :: real)" by simp
    also have "\<dots> \<le> s u - (\<bar>s u\<bar> / 2 ^ 24 + 1 / 2 ^ 150)"
      using z by (intro diff_mono add_mono divide_right_mono) simp_all
    also have "\<dots> \<le> near (s u)"
      using near_error [of "s u"] by simp
    finally show ?thesis
      using u by (simp add: xs_def off_def bu)
  qed
  have "xs ! u \<in> set xs" using u len by simp
  then have "xs ! u \<le> Max (set xs)" by (intro Max_ge) simp_all
  then have "xs ! j - Max (set xs) \<le> - 300"
    using xj xu by simp
  then have "ws ! j = 0" using ws(3) j by simp
  then show ?thesis
    using ws(1,2) j by (simp add: row)
qed

lemma finite_row:
  assumes "\<forall>t<m. \<exists>s. f t = Fin s"
  shows "map f [0..<m] = map Fin (map (\<lambda>t. val32 (f t)) [0..<m])"
  using assms by auto

subsection \<open>Attention weights in single precision\<close>

text \<open>
  C7 fails as it is worded: without a mask, the query and the key \<open>2^64\<close> of depth 1 have the
  product \<open>2^128\<close>, which overflows to an infinity; the softmax subtracts the infinity
  from itself, and the only weight of the row is NaN, so the row does not sum to 1.
\<close>

theorem attention_weights_overflow:
  "shaped [] 1 1 (Mat [[Fin (2 ^ 64)]]) \<and> shaped [] 1 1 (Mat [[Fin 1]])
   \<and> snd (scaled_dot_product_attention_on float32_kernels (Mat [[Fin (2 ^ 64)]])
        (Mat [[Fin (2 ^ 64)]]) (Mat [[Fin 1]]) None) = Mat [[NaN]]"
proof -
  have "(18446744073709551616 :: real) * 18446744073709551616 = 2 ^ 128"
    by simp
  then have "rnd (18446744073709551616 * 18446744073709551616) = PInf"
    by (simp only: rnd_2_128)
  then show ?thesis
    by (simp add: scaled_dot_product_attention_on_def tf_matmul_on_def matmul_tb_k_def
        matmul_k_def ncols_def float32_kernels_simps dot32_def softmax32_def max32_def
        sum32_def fsub_def shape2_def shape1_def rnd_0 rnd_1 Let_def)
qed

text \<open>
  C7. Without a mask, for tensors of any rank with \<open>0 < m \<le> 2^16\<close> key positions, and for
  a query position all of whose scaled scores are finite (no overflow and no NaN in
  \<open>Q K^T / sqrt(depth)\<close>), the attention weights of that query are finite and not
  negative, and their sum differs from 1 by at most \<open>(m + 1) / 2^22\<close>.
\<close>

theorem attention_weights_sum_within_tolerance:
  assumes "shaped ds n d q" and "shaped ds m d k" and "shaped ds m dv v"
    and "list_all ((<) 0) ds" and "0 < m" and "m \<le> 2 ^ 16"
    and "inside ds idx" and "i < n"
    and "\<forall>t<m. \<exists>s. logit_on float32_kernels q k None idx i t = Fin s"
  shows "\<exists>ws. slice idx (snd (scaled_dot_product_attention_on float32_kernels q k v None)) ! i
              = map Fin ws
           \<and> length ws = m \<and> (\<forall>w\<in>set ws. 0 \<le> w)
           \<and> \<bar>sum_list ws - 1\<bar> \<le> (real m + 1) / 2 ^ 22"
proof -
  define xs where "xs = map (\<lambda>t. val32 (logit_on float32_kernels q k None idx i t)) [0..<m]"
  have mk: "mask_ok_on ds n m None"
    by (simp add: mask_ok_on_def)
  have soft: "\<forall>r. length (ksoftmax float32_kernels r) = length r"
    by (simp add: float32_kernels_simps softmax32_length)
  from sdpa_on_rows [OF assms(1-5) mk soft] assms(7,8)
  have "slice idx (snd (scaled_dot_product_attention_on float32_kernels q k v None)) ! i
      = softmax32 (map (logit_on float32_kernels q k None idx i) [0..<m])"
    by (simp add: float32_kernels_simps)
  also have "\<dots> = softmax32 (map Fin xs)"
    unfolding xs_def using assms(9) by (simp only: finite_row)
  finally have row: "slice idx (snd (scaled_dot_product_attention_on float32_kernels q k v None)) ! i
      = softmax32 (map Fin xs)" .
  have ne: "xs \<noteq> []" and len: "length xs = m"
    using assms(5) by (simp_all add: xs_def)
  from softmax32_row [OF ne] assms(6) len show ?thesis
    unfolding row by auto
qed

text \<open>One query and the two keys 0 and 20 of depth 1.\<close>

theorem attention_weights_sum_within_tolerance_witness:
  "shaped [] 1 1 (Mat [[Fin 1]]) \<and> shaped [] 2 1 (Mat [[Fin 0], [Fin 20]])
   \<and> shaped [] 2 1 (Mat [[Fin 1], [Fin 1]]) \<and> inside [] []
   \<and> logit_on float32_kernels (Mat [[Fin 1]]) (Mat [[Fin 0], [Fin 20]]) None [] 0 0 = Fin 0
   \<and> logit_on float32_kernels (Mat [[Fin 1]]) (Mat [[Fin 0], [Fin 20]]) None [] 0 1 = Fin 20
   \<and> (\<exists>ws. slice [] (snd (scaled_dot_product_attention_on float32_kernels (Mat [[Fin 1]])
          (Mat [[Fin 0], [Fin 20]]) (Mat [[Fin 1], [Fin 1]]) None)) ! 0 = map Fin ws
        \<and> length ws = 2 \<and> (\<forall>w\<in>set ws. 0 \<le> w)
        \<and> \<bar>sum_list ws - 1\<bar> \<le> (real 2 + 1) / 2 ^ 22)"
proof -
  have q: "shaped [] 1 1 (Mat [[Fin 1]])"
    and k: "shaped [] 2 1 (Mat [[Fin 0], [Fin 20]])"
    and v: "shaped [] 2 1 (Mat [[Fin 1], [Fin 1]])"
    by (simp_all add: shape2_def shape1_def)
  have ds: "list_all ((<) 0) ([] :: nat list)" and m: "0 < (2 :: nat)" "(2 :: nat) \<le> 2 ^ 16"
    and i: "0 < (1 :: nat)"
    by simp_all
  have idx: "inside [] []"
    by (simp add: inside_def)
  have s0: "logit_on float32_kernels (Mat [[Fin 1]]) (Mat [[Fin 0], [Fin 20]]) None [] 0 0 = Fin 0"
    and s1: "logit_on float32_kernels (Mat [[Fin 1]]) (Mat [[Fin 0], [Fin 20]]) None [] 0 1
      = Fin 20"
    by (simp_all add: logit_on_def float32_kernels_simps dot32_def rnd_0 rnd_1 rnd_20)
  have fin: "\<forall>t<2. \<exists>s. logit_on float32_kernels (Mat [[Fin 1]]) (Mat [[Fin 0], [Fin 20]])
          None [] 0 t = Fin s"
    using s0 s1 by (auto simp: less_Suc_eq numeral_2_eq_2)
  from attention_weights_sum_within_tolerance [OF q k v ds m idx i fin] q k v idx s0 s1
  show ?thesis
    by blast
qed

text \<open>
  C8 fails as it is worded: one query, the key 20 blocked by the mask and the key \<open>-1e9\<close>
  visible. The sum \<open>20 - 1e9\<close> rounds to \<open>-1e9\<close>, the two logits are equal, and the blocked
  key receives the weight one half.
\<close>

theorem blocked_weight_one_half:
  "mask_fits [] 1 2 (Mat [[Fin 1, Fin 0]])
   \<and> snd (scaled_dot_product_attention_on float32_kernels (Mat [[Fin 1]])
        (Mat [[Fin 20], [Fin (- 1000000000)]]) (Mat [[Fin 1], [Fin 1]])
        (Some (Mat [[Fin 1, Fin 0]]))) = Mat [[Fin (1 / 2), Fin (1 / 2)]]
   \<and> \<not> (1 / 2 < (1 / 10 ^ 6 :: real))"
  by (simp add: scaled_dot_product_attention_on_def tf_matmul_on_def matmul_tb_k_def
      matmul_k_def ncols_def add_rows_def bcast_def float32_kernels_simps dot32_def
      softmax32_def max32_def sum32_def fsub_def bsize_def rnd_0 rnd_1 rnd_2 rnd_half rnd_20
      rnd_penalty rnd_penalty_20 Let_def)

text \<open>
  C8. For tensors of any rank with at most \<open>2^16\<close> key positions, a mask whose entries for
  the query are 0 or 1 and leave at least one key visible, and scaled scores of the query
  that are finite and at most \<open>1e8\<close> in magnitude, the attention weight of every blocked key
  is exactly 0, hence below \<open>1e-6\<close>.
\<close>

theorem blocked_weight_underflows:
  assumes "shaped ds n d q" and "shaped ds m d k" and "shaped ds m dv v"
    and "list_all ((<) 0) ds" and "mask_fits ds n m msk"
    and "inside ds idx" and "i < n" and "m \<le> 2 ^ 16" and "j < m" and "u < m"
    and "\<forall>t<m. \<exists>s. logit_on float32_kernels q k None idx i t = Fin s \<and> \<bar>s\<bar> \<le> 10 ^ 8"
    and "\<forall>t<m. bnth (bnth (mask_slice idx msk) i) t = Fin 0
            \<or> bnth (bnth (mask_slice idx msk) i) t = Fin 1"
    and "bnth (bnth (mask_slice idx msk) i) j = Fin 1"
    and "bnth (bnth (mask_slice idx msk) i) u = Fin 0"
  shows "slice idx (snd (scaled_dot_product_attention_on float32_kernels q k v (Some msk))) ! i ! j
           = Fin 0"
proof -
  define s where "s = (\<lambda>t. val32 (logit_on float32_kernels q k None idx i t))"
  define b where "b = (\<lambda>t. bnth (bnth (mask_slice idx msk) i) t)"
  have m: "0 < m" using assms(9) by simp
  have mk: "mask_ok_on ds n m (Some msk)"
    using assms(5) by (simp add: mask_ok_on_def)
  have soft: "\<forall>r. length (ksoftmax float32_kernels r) = length r"
    by (simp add: float32_kernels_simps softmax32_length)
  have sc: "logit_on float32_kernels q k None idx i t = Fin (s t) \<and> \<bar>s t\<bar> \<le> 10 ^ 8"
    if "t < m" for t
    using assms(11) that by (auto simp: s_def)
  have lg: "logit_on float32_kernels q k (Some msk) idx i t
      = fadd (Fin (s t)) (fmul (b t) (Fin (- 1000000000)))" if "t < m" for t
    using sc [OF that] by (simp add: score_unmasked float32_kernels_simps b_def rnd_penalty)
  from sdpa_on_rows [OF assms(1-4) m mk soft] assms(6,7)
  have "slice idx (snd (scaled_dot_product_attention_on float32_kernels q k v (Some msk))) ! i
      = softmax32 (map (logit_on float32_kernels q k (Some msk) idx i) [0..<m])"
    by (simp add: float32_kernels_simps)
  also have "map (logit_on float32_kernels q k (Some msk) idx i) [0..<m]
      = map (\<lambda>t. fadd (Fin (s t)) (fmul (b t) (Fin (- 1000000000)))) [0..<m]"
    by (rule map_cong) (simp_all add: lg)
  finally have row: "slice idx (snd (scaled_dot_product_attention_on float32_kernels q k v
      (Some msk))) ! i
      = softmax32 (map (\<lambda>t. fadd (Fin (s t)) (fmul (b t) (Fin (- 1000000000)))) [0..<m])" .
  have "\<forall>t<m. \<bar>s t\<bar> \<le> 10 ^ 8"
    using sc by simp
  moreover have "\<forall>t<m. b t = Fin 0 \<or> b t = Fin 1" "b j = Fin 1" "b u = Fin 0"
    using assms(12-14) by (simp_all add: b_def)
  ultimately show ?thesis
    unfolding row using assms(8-10) by (intro masked_row_zero [where u = u]) simp_all
qed

text \<open>One query and the two keys 0 and 20 of depth 1, the second key blocked.\<close>

theorem blocked_weight_underflows_witness:
  "shaped [] 1 1 (Mat [[Fin 1]]) \<and> shaped [] 2 1 (Mat [[Fin 0], [Fin 20]])
   \<and> shaped [] 2 1 (Mat [[Fin 1], [Fin 1]]) \<and> mask_fits [] 1 2 (Mat [[Fin 0, Fin 1]])
   \<and> inside [] []
   \<and> logit_on float32_kernels (Mat [[Fin 1]]) (Mat [[Fin 0], [Fin 20]]) None [] 0 0 = Fin 0
   \<and> logit_on float32_kernels (Mat [[Fin 1]]) (Mat [[Fin 0], [Fin 20]]) None [] 0 1 = Fin 20
   \<and> \<bar>0 :: real\<bar> \<le> 10 ^ 8 \<and> \<bar>20 :: real\<bar> \<le> 10 ^ 8
   \<and> bnth (bnth (mask_slice [] (Mat [[Fin 0, Fin 1]])) 0) 1 = Fin 1
   \<and> bnth (bnth (mask_slice [] (Mat [[Fin 0, Fin 1]])) 0) 0 = Fin 0
   \<and> slice [] (snd (scaled_dot_product_attention_on float32_kernels (Mat [[Fin 1]])
        (Mat [[Fin 0], [Fin 20]]) (Mat [[Fin 1], [Fin 1]]) (Some (Mat [[Fin 0, Fin 1]])))) ! 0 ! 1
       = Fin 0"
proof -
  have q: "shaped [] 1 1 (Mat [[Fin 1]])"
    and k: "shaped [] 2 1 (Mat [[Fin 0], [Fin 20]])"
    and v: "shaped [] 2 1 (Mat [[Fin 1], [Fin 1]])"
    by (simp_all add: shape2_def shape1_def)
  have mk: "mask_fits [] 1 2 (Mat [[Fin 0, Fin 1]])"
    by (simp add: bsize_def)
  have ds: "list_all ((<) 0) ([] :: nat list)" and m: "(2 :: nat) \<le> 2 ^ 16"
    and i: "0 < (1 :: nat)" and j: "1 < (2 :: nat)" and u: "0 < (2 :: nat)"
    by simp_all
  have idx: "inside [] []"
    by (simp add: inside_def)
  have s0: "logit_on float32_kernels (Mat [[Fin 1]]) (Mat [[Fin 0], [Fin 20]]) None [] 0 0 = Fin 0"
    and s1: "logit_on float32_kernels (Mat [[Fin 1]]) (Mat [[Fin 0], [Fin 20]]) None [] 0 1
      = Fin 20"
    by (simp_all add: logit_on_def float32_kernels_simps dot32_def rnd_0 rnd_1 rnd_20)
  have bd: "\<bar>0 :: real\<bar> \<le> 10 ^ 8" "\<bar>20 :: real\<bar> \<le> 10 ^ 8"
    by simp_all
  have fin: "\<forall>t<2. \<exists>s. logit_on float32_kernels (Mat [[Fin 1]]) (Mat [[Fin 0], [Fin 20]])
          None [] 0 t = Fin s \<and> \<bar>s\<bar> \<le> 10 ^ 8"
    using s0 s1 by (auto simp: less_Suc_eq numeral_2_eq_2)
  have bin: "\<forall>t<2. bnth (bnth (mask_slice [] (Mat [[Fin 0, Fin 1]])) 0) t = Fin 0
          \<or> bnth (bnth (mask_slice [] (Mat [[Fin 0, Fin 1]])) 0) t = Fin 1"
    by (simp add: bnth_def less_Suc_eq numeral_2_eq_2)
  have bj: "bnth (bnth (mask_slice [] (Mat [[Fin 0, Fin 1]])) 0) 1 = Fin 1"
    and bu: "bnth (bnth (mask_slice [] (Mat [[Fin 0, Fin 1]])) 0) 0 = Fin 0"
    by (simp_all add: bnth_def)
  from blocked_weight_underflows [OF q k v ds mk idx i m j u fin bin bj bu]
    q k v mk idx s0 s1 bd bj bu
  show ?thesis
    by blast
qed

subsection \<open>Point-wise feed-forward network and dropout\<close>

lemma map_index: "map (\<lambda>i. f (xs ! i)) [0..<length xs] = map f xs"
  by (rule nth_equalityI) simp_all

lemma map_enumerate: "map (\<lambda>(i, y). g i y) (enumerate 0 xs) = map (\<lambda>i. g i (xs ! i)) [0..<length xs]"
  by (rule nth_equalityI) (simp_all add: nth_enumerate_eq)

lemma conv_at_pointwise:
  "kernel_size c = 1 \<Longrightarrow> conv_at c m = (\<lambda>s. project_relu c (m ! s))"
  by (rule ext) (simp add: conv_at_def project_relu_def)

lemma Conv1D_pointwise:
  assumes "kernel_size c = 1"
  shows "Conv1D_call c x = map (map (project_relu c)) x"
  using assms by (simp add: Conv1D_call_def conv_at_pointwise map_index)

lemma Dropout_entry:
  assumes "b < length x" "s < length (x ! b)"
  shows "Dropout_call rate keep x training ! b ! s
    = dropout_row rate (keep b s) training (x ! b ! s)"
  using assms
  by (simp add: Dropout_call_def dropout_row_def map_enumerate)

lemma Dropout_length:
  "length (Dropout_call rate keep x training) = length x"
  "b < length x \<Longrightarrow> length (Dropout_call rate keep x training ! b) = length (x ! b)"
  "b < length x \<Longrightarrow> s < length (x ! b) \<Longrightarrow>
     length (Dropout_call rate keep x training ! b ! s) = length (x ! b ! s)"
  by (simp_all add: Dropout_call_def map_enumerate)

lemma relu_nonneg: "0 \<le> relu y"
  by (simp add: relu_def)

text \<open>
  C9. With the kernel size 1 that \<open>__init__\<close> fixes, the network keeps the batch and
  sequence axes, and its output at batch row \<open>b\<close> and position \<open>s\<close> is a function of
  the input at \<open>(b, s)\<close> alone (and, in training, of the dropout draw at \<open>(b, s)\<close>):
  a projection followed by relu, dropout, a second projection followed by relu, so that
  no output entry is negative. Outside training the dropout step is the identity.
\<close>

theorem PointWiseFFN_position_wise:
  assumes k1: "kernel_size (conv1d_1 l) = 1" and k2: "kernel_size (conv1d_2 l) = 1"
  shows "length (PointWiseFFN_call l x training keep) = length x
    \<and> (\<forall>b<length x. length (PointWiseFFN_call l x training keep ! b) = length (x ! b)
        \<and> (\<forall>s<length (x ! b).
              PointWiseFFN_call l x training keep ! b ! s
                = ffn_position l training (keep b s) (x ! b ! s)
            \<and> (\<forall>y\<in>set (PointWiseFFN_call l x training keep ! b ! s). 0 \<le> y)))
    \<and> (\<forall>r. ffn_position l False kp r
          = project_relu (conv1d_2 l) (project_relu (conv1d_1 l) r))"
proof (intro conjI allI impI)
  let ?h = "Conv1D_call (conv1d_1 l) x"
  let ?d = "Dropout_call (dropout l) keep ?h training"
  have out: "PointWiseFFN_call l x training keep = map (map (project_relu (conv1d_2 l))) ?d"
    by (simp add: PointWiseFFN_call_def Conv1D_pointwise [OF k2])
  have h: "?h = map (map (project_relu (conv1d_1 l))) x"
    by (rule Conv1D_pointwise [OF k1])
  show "length (PointWiseFFN_call l x training keep) = length x"
    by (simp add: out Dropout_length h)
  fix b assume b: "b < length x"
  then have bh: "b < length ?h" by (simp add: h)
  show lb: "length (PointWiseFFN_call l x training keep ! b) = length (x ! b)"
    using b bh by (simp add: out Dropout_length) (simp add: h)
  fix s assume s: "s < length (x ! b)"
  then have sh: "s < length (?h ! b)" using b by (simp add: h)
  have "PointWiseFFN_call l x training keep ! b ! s
      = project_relu (conv1d_2 l) (?d ! b ! s)"
    using b s bh sh by (simp add: out Dropout_length)
  also have "?d ! b ! s = dropout_row (dropout l) (keep b s) training (?h ! b ! s)"
    using bh sh by (rule Dropout_entry)
  also have "?h ! b ! s = project_relu (conv1d_1 l) (x ! b ! s)"
    using b s by (simp add: h)
  finally show e: "PointWiseFFN_call l x training keep ! b ! s
      = ffn_position l training (keep b s) (x ! b ! s)"
    by (simp add: ffn_position_def)
  show "\<forall>y\<in>set (PointWiseFFN_call l x training keep ! b ! s). 0 \<le> y"
    by (auto simp: e ffn_position_def project_relu_def relu_nonneg)
next
  fix r
  show "ffn_position l False kp r
      = project_relu (conv1d_2 l) (project_relu (conv1d_1 l) r)"
    by (simp add: ffn_position_def dropout_row_def)
qed

theorem PointWiseFFN_position_wise_witness:
  "kernel_size (conv1d_1 (PointWiseFFN_init (1 / 10) [[1, - 1]] [0, 0] [[1], [1]] [0])) = 1
   \<and> kernel_size (conv1d_2 (PointWiseFFN_init (1 / 10) [[1, - 1]] [0, 0] [[1], [1]] [0])) = 1
   \<and> PointWiseFFN_call (PointWiseFFN_init (1 / 10) [[1, - 1]] [0, 0] [[1], [1]] [0])
        [[[2], [- 3]]] False (\<lambda>b s f. True) ! 0 ! 1
      = ffn_position (PointWiseFFN_init (1 / 10) [[1, - 1]] [0, 0] [[1], [1]] [0]) False
          (\<lambda>f. True) ([[[2], [- 3]]] ! 0 ! 1)
   \<and> ffn_position (PointWiseFFN_init (1 / 10) [[1, - 1]] [0, 0] [[1], [1]] [0]) False
          (\<lambda>f. True) [- 3] = [3]"
proof -
  let ?l = "PointWiseFFN_init (1 / 10) [[1, - 1]] [0, 0] [[1], [1]] [0]"
  have k: "kernel_size (conv1d_1 ?l) = 1" "kernel_size (conv1d_2 ?l) = 1"
    by (simp_all add: PointWiseFFN_init_def)
  have v: "ffn_position ?l False (\<lambda>f. True) [- 3] = [3]"
    by (simp add: ffn_position_def project_relu_def dropout_row_def PointWiseFFN_init_def
        relu_def dot_def)
  from PointWiseFFN_position_wise [OF k, of "[[[2], [- 3]]]" False "\<lambda>b s f. True"] k v
  show ?thesis by simp
qed

text \<open>
  C6. With \<open>training = False\<close> the outputs of the feed-forward network, of an encoder
  layer and of the whole encoder do not depend on the dropout draws, the only input of
  the forward pass besides the parameters, the tokens and the mask: two calls on the same
  input return the same output.
\<close>

theorem inference_ignores_dropout_draws:
  "PointWiseFFN_call f x False keep = PointWiseFFN_call f x False keep'
   \<and> SASEncoderLayer_call l x False msk rng = SASEncoderLayer_call l x False msk rng'
   \<and> SASEncoder_call e ids False msk r = SASEncoder_call e ids False msk r'"
proof (intro conjI)
  show "PointWiseFFN_call f x False keep = PointWiseFFN_call f x False keep'"
    by (simp add: PointWiseFFN_call_def Dropout_call_def)
  show layer: "SASEncoderLayer_call l x False msk rng = SASEncoderLayer_call l x False msk rng'"
    for l x rng rng'
    by (simp add: SASEncoderLayer_call_def PointWiseFFN_call_def Dropout_call_def)
  have "run_layers e False msk (layer_noises r) y = run_layers e False msk (layer_noises r') y"
    for y
    unfolding run_layers_def
    by (rule foldl_cong) (simp_all add: layer [of _ _ "layer_noises r _" "layer_noises r' _"])
  then show "SASEncoder_call e ids False msk r = SASEncoder_call e ids False msk r'"
    by (simp add: SASEncoder_call_def Dropout_call_def Let_def split: sum.splits)
qed

subsection \<open>The positional lookup\<close>

lemma x_pos_in_table:
  "0 < B \<Longrightarrow> list_all (list_all (in_table table)) (x_pos B S) \<longleftrightarrow> S \<le> length table"
proof -
  assume "0 < B"
  then have "set (x_pos B S) = {tf_range S}"
    by (simp add: x_pos_replicate)
  then show ?thesis
    by (simp add: list_all_iff range_in_table [symmetric])
qed

lemma embedded_dims:
  assumes "shape2 B S ids" "0 < B"
  shows "length (mul_scalar3 (map (map f) ids) c) = B"
    and "ncols (mul_scalar3 (map (map f) ids) c) = S"
  using assms by (cases ids; simp add: shape2_def shape1_def mul_scalar3_def ncols_def)+

text \<open>
  C10. For a batch of \<open>B > 0\<close> rows of \<open>S\<close> valid token ids each, every row of the
  positional index tensor is \<open>0, ..., S - 1\<close>; all its indices are inside the
  positional table exactly when \<open>S\<close> is at most the table's length \<open>max_len\<close>. Beyond
  that the lookup, and with it the encoder call, ends in an invalid-argument error;
  within it the call returns a tensor.
\<close>

theorem positional_lookup_bounds:
  assumes ids: "shape2 B S ids" and B: "0 < B"
    and tokens: "list_all (list_all (in_table (embedding e))) ids"
  shows "(\<forall>row\<in>set (x_pos B S). row = map int [0..<S])
    \<and> (list_all (list_all (in_table (pos_embedding e))) (x_pos B S)
          \<longleftrightarrow> S \<le> length (pos_embedding e))
    \<and> (length (pos_embedding e) < S \<longrightarrow>
          Embedding_call (pos_embedding e) (x_pos B S) = Inl InvalidArgumentError
          \<and> SASEncoder_call e ids training msk rng = Inl InvalidArgumentError)
    \<and> (S \<le> length (pos_embedding e) \<longrightarrow>
          (\<exists>y. SASEncoder_call e ids training msk rng = Inr y))"
proof (intro conjI impI)
  show "\<forall>row\<in>set (x_pos B S). row = map int [0..<S]"
    by (simp add: x_pos_replicate tf_range_def)
  show "list_all (list_all (in_table (pos_embedding e))) (x_pos B S)
      \<longleftrightarrow> S \<le> length (pos_embedding e)"
    using B by (rule x_pos_in_table)
next
  assume "length (pos_embedding e) < S"
  then have bad: "\<not> list_all (list_all (in_table (pos_embedding e))) (x_pos B S)"
    using x_pos_in_table [OF B, of "pos_embedding e" S] by simp
  then show "Embedding_call (pos_embedding e) (x_pos B S) = Inl InvalidArgumentError"
    by (simp add: Embedding_call_def)
  with tokens show "SASEncoder_call e ids training msk rng = Inl InvalidArgumentError"
    by (simp add: SASEncoder_call_def Embedding_call_def embedded_dims [OF ids B])
next
  assume "S \<le> length (pos_embedding e)"
  then have "list_all (list_all (in_table (pos_embedding e))) (x_pos B S)"
    using x_pos_in_table [OF B, of "pos_embedding e" S] by simp
  with tokens show "\<exists>y. SASEncoder_call e ids training msk rng = Inr y"
    by (simp add: SASEncoder_call_def Embedding_call_def embedded_dims [OF ids B] Let_def)
qed

theorem positional_lookup_bounds_witness:
  "shape2 1 2 [[1, 1 :: int]]
   \<and> list_all (list_all (in_table [[0], [1]])) [[1, 1]]
   \<and> length [[0 :: real]] < 2
   \<and> x_pos 1 2 = [[0, 1]]
   \<and> SASEncoder_call
        \<lparr>enc_d_model = 1, num_layers = 0, embedding = [[0], [1]], pos_embedding = [[0]],
         enc_layers = [], enc_dropout = 0\<rparr>
        [[1, 1]] False None
        \<lparr>noise0 = \<lambda>b s f. True,
         layer_noises = \<lambda>i. \<lparr>noise1 = \<lambda>b s f. True, noise_ffn = \<lambda>b s f. True,
                                noise2 = \<lambda>b s f. True\<rparr>\<rparr>
      = Inl InvalidArgumentError"
proof -
  let ?e = "\<lparr>enc_d_model = 1, num_layers = 0, embedding = [[0], [1]], pos_embedding = [[0]],
         enc_layers = [], enc_dropout = 0\<rparr>"
  have ids: "shape2 1 2 [[1, 1 :: int]]"
    by (simp add: shape2_def shape1_def)
  have tokens: "list_all (list_all (in_table (embedding ?e))) [[1, 1]]"
    by (simp add: in_table_def)
  have xp: "x_pos 1 2 = [[0, 1]]"
    by (simp add: x_pos_def tf_tile_def expand_dims0_def tf_range_def upt_rec)
  from positional_lookup_bounds [OF ids _ tokens] ids tokens xp
  show ?thesis by simp
qed

subsection \<open>Splitting and merging heads\<close>

lemma chunks_length: "length (chunks n xs) = length xs div n"
  by (simp add: chunks_def)

lemma concat_uniform_length:
  "\<forall>xs\<in>set xss. length xs = n \<Longrightarrow> length (concat xss) = length xss * n"
  by (induction xss) simp_all

lemma take_drop_concat:
  "\<forall>xs\<in>set xss. length xs = n \<Longrightarrow> i < length xss \<Longrightarrow>
     take n (drop (i * n) (concat xss)) = xss ! i"
proof (induction xss arbitrary: i)
  case Nil
  then show ?case by simp
next
  case (Cons x xss)
  show ?case
  proof (cases i)
    case 0
    with Cons.prems show ?thesis by simp
  next
    case (Suc i')
    with Cons show ?thesis by simp
  qed
qed

lemma chunks_concat:
  assumes "\<forall>xs\<in>set xss. length xs = n" "0 < n"
  shows "chunks n (concat xss) = xss"
proof (rule nth_equalityI)
  have len: "length (concat xss) = length xss * n"
    using assms(1) by (rule concat_uniform_length)
  show "length (chunks n (concat xss)) = length xss"
    using assms(2) by (simp add: chunks_length len)
  fix i assume "i < length (chunks n (concat xss))"
  then have "i < length xss"
    using assms(2) by (simp add: chunks_length len)
  then show "chunks n (concat xss) ! i = xss ! i"
    using assms by (simp add: chunks_def len take_drop_concat)
qed

lemma concat_concat_map: "concat (concat xsss) = concat (map concat xsss)"
  by (induction xsss) simp_all

lemma chunks_row:
  "length r = H * D \<Longrightarrow> 0 < D \<Longrightarrow> chunks D r = map (\<lambda>h. take D (drop (h * D) r)) [0..<H]"
  by (simp add: chunks_def)

lemma head_slice_length:
  assumes "length r = H * D" "h < H"
  shows "length (take D (drop (h * D) r)) = D"
proof -
  from assms(2) have "Suc h \<le> H" by simp
  then have "Suc h * D \<le> H * D" by (rule mult_le_mono1)
  then show ?thesis using assms(1) by simp
qed

lemma reshape_heads_rows:
  assumes x: "shape3 B S (H * D) x" and pos: "0 < B" "0 < S" "0 < H" "0 < D"
  shows "reshape_heads x B H D = map (map (\<lambda>r. map (\<lambda>h. take D (drop (h * D) r)) [0..<H])) x"
proof -
  note X = x [unfolded shape3_iff]
  have rows: "\<forall>m\<in>set x. \<forall>r\<in>set m. length r = H * D"
    using x by (auto simp: shape3_def shape2_def shape1_def list_all_iff)
  have mats: "\<forall>m\<in>set x. length m = S"
    using x by (auto simp: shape3_def shape2_def list_all_iff)
  have flat_m: "\<forall>e\<in>set (map concat x). length e = S * (H * D)"
  proof
    fix e assume "e \<in> set (map concat x)"
    then obtain m where m: "m \<in> set x" and e: "e = concat m" by auto
    from rows m have "\<forall>r\<in>set m. length r = H * D" by simp
    from concat_uniform_length [OF this] mats m show "length e = S * (H * D)"
      by (simp add: e)
  qed
  have len: "length (concat (concat x)) = B * (S * (H * D))"
    using concat_uniform_length [OF flat_m] X by (simp add: concat_concat_map)
  have per: "length (concat (concat x)) div B = S * (H * D)"
    using pos(1) by (simp add: len)
  have 1: "chunks (S * (H * D)) (concat (concat x)) = map concat x"
    unfolding concat_concat_map using flat_m pos by (intro chunks_concat) simp_all
  have 2: "chunks (H * D) (concat m) = m" if "m \<in> set x" for m
    using rows that pos by (intro chunks_concat) simp_all
  have 3: "chunks D r = map (\<lambda>h. take D (drop (h * D) r)) [0..<H]"
    if "m \<in> set x" "r \<in> set m" for m r
    using rows that pos by (intro chunks_row) simp_all
  show ?thesis
    by (simp add: reshape_heads_def per 1 2 3 cong: map_cong)
qed

lemma split_heads_spec:
  assumes x: "shape3 B S (H * D) x" and pos: "0 < B" "0 < S" "0 < H" "0 < D"
    and l: "nat (num_heads l) = H" "nat (depth l) = D"
  shows "split_heads l x B = heads_spec H D x"
proof -
  have mats: "\<forall>m\<in>set x. length m = S"
    using x by (auto simp: shape3_def shape2_def list_all_iff)
  have nc: "ncols (map (\<lambda>r. map (\<lambda>h. take D (drop (h * D) r)) [0..<H]) m) = H" if "m \<in> set x" for m
    using mats that pos by (cases m) (auto simp: ncols_def)
  show ?thesis
    unfolding split_heads_def l Let_def reshape_heads_rows [OF x pos]
    by (simp add: transpose_0213_def heads_spec_def nc cong: map_cong)
qed

lemma heads_spec_shape:
  assumes x: "shape3 B S (H * D) x"
  shows "shape4 B H S D (heads_spec H D x)"
    and "b < B \<Longrightarrow> h < H \<Longrightarrow> s < S \<Longrightarrow> c < D \<Longrightarrow>
      heads_spec H D x ! b ! h ! s ! c = x ! b ! s ! (h * D + c)"
proof -
  note X = x [unfolded shape3_iff]
  have "length (take D (drop (h * D) (x ! b ! s))) = D" if "b < B" "h < H" "s < S" for b h s
    using X that by (intro head_slice_length [of _ H]) simp_all
  then show "shape4 B H S D (heads_spec H D x)"
    unfolding shape4_iff using X
    by (simp add: heads_spec_def del: length_take length_drop)
  assume b: "b < B" and h: "h < H" and s: "s < S" and c: "c < D"
  have len: "length (x ! b ! s) = H * D"
    using X b s by simp
  have "h * D + c < Suc h * D"
    using c by simp
  also have "\<dots> \<le> H * D"
    using h by (intro mult_le_mono1) simp
  finally have "h * D + c < length (x ! b ! s)"
    by (simp add: len)
  then show "heads_spec H D x ! b ! h ! s ! c = x ! b ! s ! (h * D + c)"
    using X b h s c by (simp add: heads_spec_def)
qed

lemma Dense_shape:
  assumes x: "shape3 B S d_in x" and l: "dense_ok d_in units l"
  shows "shape3 B S units (Dense_call l x)"
proof -
  from l have nc: "ncols (kernel l) = units"
    by (intro ncols_shape2 [of d_in]) (simp_all add: dense_ok_def)
  from l have "length (bias l) = units"
    by (simp add: dense_ok_def)
  with nc x show ?thesis
    by (simp add: shape3_iff Dense_call_def matmul2_def)
qed

lemma transpose_back:
  assumes a: "shape4 B H S D a" and H: "0 < H"
  shows "transpose_0213 a = map (\<lambda>e. map (\<lambda>s. map (\<lambda>hm. hm ! s) e) [0..<S]) a"
proof -
  have "ncols e = S" if "e \<in> set a" for e
  proof -
    from a that have "shape3 H S D e"
      by (simp add: shape4_def list_all_iff)
    then have "shape2 H S e"
      by (auto simp: shape3_def shape2_def shape1_def list_all_iff)
    then show ?thesis using H by (rule ncols_shape2)
  qed
  then show ?thesis
    by (simp add: transpose_0213_def cong: map_cong)
qed

lemma reshape_model_rows:
  assumes t: "shape4 B S H D t" and pos: "0 < B" "0 < S" "0 < H" "0 < D"
  shows "reshape_model t B (H * D) = map (map concat) t"
proof -
  note T = t [unfolded shape4_iff]
  have vecs: "\<forall>e\<in>set t. \<forall>r\<in>set e. \<forall>y\<in>set r. length y = D"
    using t by (auto simp: shape4_def shape3_def shape2_def shape1_def list_all_iff)
  have rows: "\<forall>e\<in>set t. \<forall>r\<in>set e. length r = H"
    using t by (auto simp: shape4_def shape3_def shape2_def list_all_iff)
  have mats: "\<forall>e\<in>set t. length e = S"
    using t by (auto simp: shape4_def shape3_def list_all_iff)
  have row_len: "length (concat r) = H * D" if "e \<in> set t" "r \<in> set e" for e r
  proof -
    from vecs that have "\<forall>y\<in>set r. length y = D" by simp
    from concat_uniform_length [OF this] rows that show ?thesis by simp
  qed
  have mat_len: "length (concat (map concat e)) = S * (H * D)" if "e \<in> set t" for e
  proof -
    have "\<forall>y\<in>set (map concat e). length y = H * D"
      using row_len [OF that] by simp
    from concat_uniform_length [OF this] mats that show ?thesis by simp
  qed
  have "concat (concat (concat u)) = concat (map (\<lambda>e. concat (concat e)) u)"
    for u :: "real list list list list"
    by (induction u) simp_all
  then have flat: "concat (concat (concat t)) = concat (map (\<lambda>e. concat (map concat e)) t)"
    by (simp only: concat_concat_map)
  have all: "\<forall>y\<in>set (map (\<lambda>e. concat (map concat e)) t). length y = S * (H * D)"
    using mat_len by simp
  have len: "length (concat (concat (concat t))) = B * (S * (H * D))"
    using concat_uniform_length [OF all] T by (simp add: flat)
  have per: "length (concat (concat (concat t))) div B = S * (H * D)"
    using pos(1) by (simp add: len)
  have 1: "chunks (S * (H * D)) (concat (concat (concat t))) = map (\<lambda>e. concat (map concat e)) t"
    unfolding flat using all pos by (intro chunks_concat) simp_all
  have 2: "chunks (H * D) (concat (map concat e)) = map concat e" if "e \<in> set t" for e
    using row_len [OF that] pos by (intro chunks_concat) simp_all
  show ?thesis
    by (simp add: reshape_model_def per 1 2 cong: map_cong)
qed

lemma transpose_back_shape:
  assumes a: "shape4 B H S D a"
  shows "shape4 B S H D (map (\<lambda>e. map (\<lambda>s. map (\<lambda>hm. hm ! s) e) [0..<S]) a)"
  using a by (simp add: shape4_iff)

lemma merge_heads:
  assumes a: "shape4 B H S D a" and pos: "0 < B" "0 < S" "0 < H" "0 < D"
  shows "reshape_model (transpose_0213 a) B (H * D) = merge_spec a"
    and "shape3 B S (H * D) (merge_spec a)"
proof -
  have nc: "ncols e = S" if "e \<in> set a" for e
  proof -
    from a that have "shape3 H S D e"
      by (simp add: shape4_def list_all_iff)
    then have "shape2 H S e"
      by (auto simp: shape3_def shape2_def shape1_def list_all_iff)
    then show ?thesis using pos(3) by (rule ncols_shape2)
  qed
  have m: "merge_spec a = map (\<lambda>e. map (\<lambda>s. concat (map (\<lambda>hm. hm ! s) e)) [0..<S]) a"
    by (simp add: merge_spec_def nc cong: map_cong)
  show "reshape_model (transpose_0213 a) B (H * D) = merge_spec a"
    unfolding transpose_back [OF a pos(3)]
      reshape_model_rows [OF transpose_back_shape [OF a] pos] m
    by simp
  note A = a [unfolded shape4_iff]
  have "length (concat (map (\<lambda>hm. hm ! s) (a ! b))) = H * D" if "b < B" "s < S" for b s
  proof -
    have "\<forall>y\<in>set (map (\<lambda>hm. hm ! s) (a ! b)). length y = D"
      using A that by (auto simp: in_set_conv_nth)
    from concat_uniform_length [OF this] A that show ?thesis by simp
  qed
  then show "shape3 B S (H * D) (merge_spec a)"
    unfolding m shape3_iff using A by simp
qed

subsection \<open>Multi-head attention\<close>

lemma mha_ok_D:
  assumes "mha_ok dq dk dv l"
  shows "0 < nat (num_heads l)" "0 < nat (depth l)"
    "nat (d_model l) = nat (num_heads l) * nat (depth l)"
    "dense_ok dq (nat (d_model l)) (wq l)" "dense_ok dk (nat (d_model l)) (wk l)"
    "dense_ok dv (nat (d_model l)) (wv l)"
    "dense_ok (nat (d_model l)) (nat (d_model l)) (dense l)"
proof -
  from assms show "0 < nat (num_heads l)" "0 < nat (depth l)"
    by (simp_all add: mha_ok_def)
  from assms have "d_model l = num_heads l * depth l" "0 \<le> num_heads l"
    by (simp_all add: mha_ok_def)
  then show "nat (d_model l) = nat (num_heads l) * nat (depth l)"
    by (simp add: nat_mult_distrib)
  from assms show "dense_ok dq (nat (d_model l)) (wq l)" "dense_ok dk (nat (d_model l)) (wk l)"
    "dense_ok dv (nat (d_model l)) (wv l)"
    "dense_ok (nat (d_model l)) (nat (d_model l)) (dense l)"
    unfolding mha_ok_def by blast+
qed

lemma MultiHeadAttention_call_facts:
  assumes l: "mha_ok dq dk dv l"
    and q: "shape3 B Sq dq q" and k: "shape3 B Sk dk k" and v: "shape3 B Sk dv v"
    and pos: "0 < B" "0 < Sq" "0 < Sk"
    and mk: "mask_ok B (nat (num_heads l)) Sq Sk msk"
  shows "MultiHeadAttention_call l v k q msk = MultiHeadAttention_spec l v k q msk"
    and "shape3 B Sq (nat (d_model l)) (fst (MultiHeadAttention_call l v k q msk))"
    and "shape4 B (nat (num_heads l)) Sq Sk (snd (MultiHeadAttention_call l v k q msk))"
proof -
  let ?H = "nat (num_heads l)" and ?D = "nat (depth l)" and ?M = "nat (d_model l)"
  note L = mha_ok_D [OF l]
  have B: "length q = B"
    using q by (simp add: shape3_def)
  have pq: "shape3 B Sq (?H * ?D) (Dense_call (wq l) q)"
    using Dense_shape [OF q L(4)] by (simp add: L(3))
  have pk: "shape3 B Sk (?H * ?D) (Dense_call (wk l) k)"
    using Dense_shape [OF k L(5)] by (simp add: L(3))
  have pv: "shape3 B Sk (?H * ?D) (Dense_call (wv l) v)"
    using Dense_shape [OF v L(6)] by (simp add: L(3))
  have sq: "split_heads l (Dense_call (wq l) q) B = heads_spec ?H ?D (Dense_call (wq l) q)"
    by (rule split_heads_spec [OF pq pos(1,2) L(1,2)]) simp_all
  have sk: "split_heads l (Dense_call (wk l) k) B = heads_spec ?H ?D (Dense_call (wk l) k)"
    by (rule split_heads_spec [OF pk pos(1,3) L(1,2)]) simp_all
  have sv: "split_heads l (Dense_call (wv l) v) B = heads_spec ?H ?D (Dense_call (wv l) v)"
    by (rule split_heads_spec [OF pv pos(1,3) L(1,2)]) simp_all
  let ?q = "heads_spec ?H ?D (Dense_call (wq l) q)"
    and ?k = "heads_spec ?H ?D (Dense_call (wk l) k)"
    and ?v = "heads_spec ?H ?D (Dense_call (wv l) v)"
  let ?att = "scaled_dot_product_attention ?q ?k ?v msk"
  note hq = heads_spec_shape(1) [OF pq] and hk = heads_spec_shape(1) [OF pk]
    and hv = heads_spec_shape(1) [OF pv]
  have out: "shape4 B ?H Sq ?D (fst ?att)"
    using output_entry(1) [OF hq hk hv pos(1) L(1) pos(3) mk] by (simp add: sdpa_unfold)
  have w: "shape4 B ?H Sq Sk (snd ?att)"
    using weights_entry(1) [OF hq hk pos(1) L(1) pos(3) mk] by (simp add: sdpa_unfold)
  have merge: "reshape_model (transpose_0213 (fst ?att)) B ?M = merge_spec (fst ?att)"
    using merge_heads(1) [OF out pos(1,2) L(1,2)] by (simp add: L(3))
  have ms: "shape3 B Sq ?M (merge_spec (fst ?att))"
    using merge_heads(2) [OF out pos(1,2) L(1,2)] by (simp add: L(3))
  show eq: "MultiHeadAttention_call l v k q msk = MultiHeadAttention_spec l v k q msk"
    by (simp add: MultiHeadAttention_call_def MultiHeadAttention_spec_def Let_def B sq sk sv
        merge split_beta)
  show "shape3 B Sq ?M (fst (MultiHeadAttention_call l v k q msk))"
    using Dense_shape [OF ms L(7)] by (simp add: eq MultiHeadAttention_spec_def Let_def)
  show "shape4 B ?H Sq Sk (snd (MultiHeadAttention_call l v k q msk))"
    using w by (simp add: eq MultiHeadAttention_spec_def Let_def)
qed

text \<open>
  C3. For a well-formed layer, a batch of \<open>B\<close> query rows of length \<open>Sq\<close> and key
  and value rows of length \<open>Sk\<close>, and a mask that broadcasts to
  \<open>(B, num_heads, Sq, Sk)\<close>, the call is the specification's pipeline: three
  projections, the split into heads, one attention over all heads, the merge of the heads
  and the output projection. The output has shape \<open>(B, Sq, d_model)\<close>, the weights
  \<open>(B, num_heads, Sq, Sk)\<close>; the split tensor has shape \<open>(B, num_heads, Sq, depth)\<close>
  and its entry \<open>(b, h, s, c)\<close> is feature \<open>h * depth + c\<close> of position \<open>s\<close>.
\<close>

theorem MultiHeadAttention_call_spec:
  assumes l: "mha_ok dq dk dv l"
    and q: "shape3 B Sq dq q" and k: "shape3 B Sk dk k" and v: "shape3 B Sk dv v"
    and pos: "0 < B" "0 < Sq" "0 < Sk"
    and mk: "mask_ok B (nat (num_heads l)) Sq Sk msk"
  shows "MultiHeadAttention_call l v k q msk = MultiHeadAttention_spec l v k q msk
    \<and> shape3 B Sq (nat (d_model l)) (fst (MultiHeadAttention_call l v k q msk))
    \<and> shape4 B (nat (num_heads l)) Sq Sk (snd (MultiHeadAttention_call l v k q msk))
    \<and> shape4 B (nat (num_heads l)) Sq (nat (depth l)) (split_heads l (Dense_call (wq l) q) B)
    \<and> (\<forall>b<B. \<forall>h<nat (num_heads l). \<forall>s<Sq. \<forall>c<nat (depth l).
          split_heads l (Dense_call (wq l) q) B ! b ! h ! s ! c
            = Dense_call (wq l) q ! b ! s ! (h * nat (depth l) + c))"
proof -
  note L = mha_ok_D [OF l]
  have pq: "shape3 B Sq (nat (num_heads l) * nat (depth l)) (Dense_call (wq l) q)"
    using Dense_shape [OF q L(4)] by (simp add: L(3))
  have sq: "split_heads l (Dense_call (wq l) q) B
      = heads_spec (nat (num_heads l)) (nat (depth l)) (Dense_call (wq l) q)"
    by (rule split_heads_spec [OF pq pos(1,2) L(1,2)]) simp_all
  note F = MultiHeadAttention_call_facts [OF l q k v pos mk]
  from F heads_spec_shape [OF pq] show ?thesis
    by (simp add: sq)
qed

subsection \<open>Encoder layer\<close>

lemma bsize_same: "length xs = n \<Longrightarrow> bsize n xs"
  by (simp add: bsize_def)

lemma bnth_same: "i < length xs \<Longrightarrow> bnth xs i = xs ! i"
  by (cases "length xs = 1") (simp_all add: bnth_def)

lemma add3_same_shape:
  assumes a: "shape3 B S d a" and m: "shape3 B S d m"
  shows "shape3 B S d (add3 a m)"
    and "b < B \<Longrightarrow> s < S \<Longrightarrow> c < d \<Longrightarrow> add3 a m ! b ! s ! c = a ! b ! s ! c + m ! b ! s ! c"
proof -
  note A = a [unfolded shape3_iff] and M = m [unfolded shape3_iff]
  have e3: "add3 a m ! b = add2 (a ! b) (m ! b)" if "b < B" for b
    using A M that by (simp add: add3_nth bsize_same bnth_same)
  have e2: "add3 a m ! b ! s = add1 (a ! b ! s) (m ! b ! s)" if "b < B" "s < S" for b s
    using A M that by (simp add: e3 add2_nth bsize_same bnth_same)
  show "shape3 B S d (add3 a m)"
    unfolding shape3_iff
  proof (intro conjI allI impI)
    show "length (add3 a m) = B"
      using A M by (simp add: add3_length bsize_same)
    fix b assume b: "b < B"
    then show "length (add3 a m ! b) = S"
      using A M by (simp add: e3 add2_length bsize_same)
    fix s assume "s < S"
    with b show "length (add3 a m ! b ! s) = d"
      using A M by (simp add: e2 add1_length bsize_same)
  qed
  assume "b < B" "s < S" "c < d"
  then show "add3 a m ! b ! s ! c = a ! b ! s ! c + m ! b ! s ! c"
    using A M by (simp add: e2 add1_nth bsize_same bnth_same)
qed

lemma Dropout_shape:
  "shape3 B S d x \<Longrightarrow> shape3 B S d (Dropout_call rate keep x training)"
  by (simp add: shape3_iff Dropout_length)

lemma LayerNormalization_shape:
  assumes "norm_ok d nrm" "shape3 B S d x"
  shows "shape3 B S d (LayerNormalization_call nrm x)"
  using assms
  by (simp add: shape3_iff norm_ok_def LayerNormalization_call_def normalize_row_def)

lemma PointWiseFFN_shape:
  assumes l: "ffn_ok d l" and x: "shape3 B S d0 x"
  shows "shape3 B S d (PointWiseFFN_call l x training keep)"
proof -
  from l have k: "kernel_size (conv1d_1 l) = 1" "kernel_size (conv1d_2 l) = 1"
    and b2: "length (conv_bias (conv1d_2 l)) = d"
    by (simp_all add: ffn_ok_def)
  have h: "shape3 B S (length (conv_bias (conv1d_1 l))) (Conv1D_call (conv1d_1 l) x)"
    using x by (simp add: Conv1D_pointwise [OF k(1)] shape3_iff project_relu_def)
  note dh = Dropout_shape [OF h, of "dropout l" keep training]
  show ?thesis
    using dh b2
    by (simp add: PointWiseFFN_call_def Conv1D_pointwise [OF k(2)] shape3_iff project_relu_def)
qed

lemma layer_ok_D:
  assumes "layer_ok dm l"
  shows "mha_ok dm dm dm (mha l)" "nat (d_model (mha l)) = dm" "ffn_ok dm (ffn l)"
    "norm_ok dm (layernorm1 l)" "norm_ok dm (layernorm2 l)"
  using assms unfolding layer_ok_def by blast+

lemma SASEncoderLayer_call_facts:
  assumes l: "layer_ok dm l" and x: "shape3 B S dm x" and pos: "0 < B" "0 < S"
    and mk: "mask_ok B (nat (num_heads (mha l))) S S msk"
  shows "SASEncoderLayer_call l x training msk rng = SASEncoderLayer_spec l x training msk rng"
    and "shape3 B S dm (SASEncoderLayer_call l x training msk rng)"
proof -
  note L = layer_ok_D [OF l]
  show eq: "SASEncoderLayer_call l x training msk rng = SASEncoderLayer_spec l x training msk rng"
    by (simp add: SASEncoderLayer_call_def SASEncoderLayer_spec_def attention_step_def
        residual_norm_def Let_def split_beta)
  have att: "shape3 B S dm (attention_step l msk x)"
    using MultiHeadAttention_call_facts(2) [OF L(1) x x x pos(1,2,2) mk]
    by (simp add: attention_step_def L(2))
  have res: "shape3 B S dm (residual_norm nrm y z)"
    if "norm_ok dm nrm" "shape3 B S dm y" "shape3 B S dm z" for nrm y z
    unfolding residual_norm_def
    by (intro LayerNormalization_shape [OF that(1)] add3_same_shape(1) [OF that(2,3)])
  let ?n1 = "residual_norm (layernorm1 l) x
      (Dropout_call (dropout1 l) (noise1 rng) (attention_step l msk x) training)"
  have n1: "shape3 B S dm ?n1"
    by (intro res L(4) x Dropout_shape att)
  have n2: "shape3 B S dm (residual_norm (layernorm2 l) ?n1
      (Dropout_call (dropout2 l) (noise2 rng)
         (PointWiseFFN_call (ffn l) ?n1 training (noise_ffn rng)) training))"
    by (intro res L(5) n1 Dropout_shape PointWiseFFN_shape [OF L(3) n1])
  then show "shape3 B S dm (SASEncoderLayer_call l x training msk rng)"
    by (simp add: eq SASEncoderLayer_spec_def Let_def)
qed

text \<open>
  C4. For a well-formed layer and an input of shape \<open>(B, S, d_model)\<close> the call is the
  specification's six steps, and its result has the shape of the input.
\<close>

theorem SASEncoderLayer_call_spec:
  assumes l: "layer_ok dm l" and x: "shape3 B S dm x" and pos: "0 < B" "0 < S"
    and mk: "mask_ok B (nat (num_heads (mha l))) S S msk"
  shows "SASEncoderLayer_call l x training msk rng = SASEncoderLayer_spec l x training msk rng
    \<and> shape3 B S dm (SASEncoderLayer_call l x training msk rng)"
  using SASEncoderLayer_call_facts [OF l x pos mk] by simp

subsection \<open>Encoder\<close>

lemma shape3_eqI:
  assumes x: "shape3 B S d x" and y: "shape3 B S d y"
    and eq: "\<And>b s c. b < B \<Longrightarrow> s < S \<Longrightarrow> c < d \<Longrightarrow> x ! b ! s ! c = y ! b ! s ! c"
  shows "x = y"
proof -
  note X = x [unfolded shape3_iff] and Y = y [unfolded shape3_iff]
  have rows: "x ! b ! s = y ! b ! s" if "b < B" "s < S" for b s
    using X Y that eq by (intro nth_equalityI) simp_all
  have mats: "x ! b = y ! b" if "b < B" for b
    using X Y that rows by (intro nth_equalityI) simp_all
  show ?thesis
    using X Y mats by (intro nth_equalityI) simp_all
qed

lemma run_layers_stack:
  "foldl (\<lambda>y i. SASEncoderLayer_call (ls ! i) y training msk (rngs i)) x [k..<length ls]
     = layer_stack (drop k ls) k training msk rngs x"
proof (induction "length ls - k" arbitrary: k x)
  case 0
  then show ?case by simp
next
  case (Suc n)
  then have k: "k < length ls" by simp
  then have d: "drop k ls = ls ! k # drop (Suc k) ls"
    by (simp add: Cons_nth_drop_Suc)
  from Suc(2) have "n = length ls - Suc k" by simp
  from Suc(1) [OF this] k show ?case
    by (simp add: upt_conv_Cons d)
qed

lemma layer_stack_shape:
  assumes "list_all (layer_ok dm) ls" and "shape3 B S dm x" and "0 < B" "0 < S"
    and "list_all (\<lambda>l. mask_ok B (nat (num_heads (mha l))) S S msk) ls"
  shows "shape3 B S dm (layer_stack ls i training msk rngs x)"
  using assms
proof (induction ls arbitrary: i x)
  case Nil
  then show ?case by simp
next
  case (Cons l ls)
  from Cons.prems have "shape3 B S dm (SASEncoderLayer_call l x training msk (rngs i))"
    by (intro SASEncoderLayer_call_facts(2)) simp_all
  with Cons show ?case by simp
qed

lemma embedding_front:
  assumes e: "list_all (shape1 dm) (embedding e)" "list_all (shape1 dm) (pos_embedding e)"
    and ids: "shape2 B S ids" and B: "0 < B"
    and tokens: "list_all (list_all (in_table (embedding e))) ids"
    and S: "S \<le> length (pos_embedding e)"
  shows "SASEncoder_call e ids training msk rng
      = Inr (run_layers e training msk (layer_noises rng)
               (embedding_stage e ids training (noise0 rng)))"
    and "shape3 B S dm (embedding_stage e ids training (noise0 rng))"
proof -
  let ?c = "sqrt (real_of_int (enc_d_model e))"
  let ?x = "mul_scalar3 (map (map (\<lambda>i. embedding e ! nat i)) ids) ?c"
  let ?p = "map (map (\<lambda>i. pos_embedding e ! nat i)) (x_pos B S)"
  let ?s = "map (\<lambda>ids. map (\<lambda>(p, i). map2 (+) (map (\<lambda>y. y * ?c) (embedding e ! nat i))
                                            (pos_embedding e ! p)) (enumerate 0 ids)) ids"
  have I: "length ids = B" "\<And>b. b < B \<Longrightarrow> length (ids ! b) = S"
    using ids by (simp_all add: shape2_def shape1_def list_all_length)
  have tok: "length (embedding e ! nat (ids ! b ! s)) = dm" if "b < B" "s < S" for b s
  proof -
    from tokens I that have "in_table (embedding e) (ids ! b ! s)"
      by (simp add: list_all_length)
    then have "nat (ids ! b ! s) < length (embedding e)"
      unfolding in_table_def by linarith
    with e(1) show ?thesis
      by (simp add: list_all_length shape1_def)
  qed
  have posrow: "length (pos_embedding e ! s) = dm" if "s < S" for s
    using e(2) S that by (simp add: list_all_length shape1_def)
  have xs: "shape3 B S dm ?x"
    unfolding shape3_iff using I tok by (simp add: mul_scalar3_def)
  have ps: "shape3 B S dm ?p"
    unfolding shape3_iff using posrow by (simp add: x_pos_replicate tf_range_def)
  have ss: "shape3 B S dm ?s"
    unfolding shape3_iff using I tok posrow by (simp add: nth_enumerate_eq)
  have sum: "add3 ?x ?p = ?s"
  proof (rule shape3_eqI [OF add3_same_shape(1) [OF xs ps] ss])
    fix b s c assume b: "b < B" and s: "s < S" and c: "c < dm"
    have "add3 ?x ?p ! b ! s ! c = ?x ! b ! s ! c + ?p ! b ! s ! c"
      using b s c by (rule add3_same_shape(2) [OF xs ps])
    also have "\<dots> = ?s ! b ! s ! c"
      using b s c I tok [OF b s] posrow [OF s]
      by (simp add: mul_scalar3_def x_pos_replicate tf_range_def nth_enumerate_eq)
    finally show "add3 ?x ?p ! b ! s ! c = ?s ! b ! s ! c" .
  qed
  have inb: "list_all (list_all (in_table (pos_embedding e))) (x_pos B S)"
    using x_pos_in_table [OF B, of "pos_embedding e" S] S by simp
  show "SASEncoder_call e ids training msk rng
      = Inr (run_layers e training msk (layer_noises rng)
               (embedding_stage e ids training (noise0 rng)))"
    using tokens inb
    by (simp add: SASEncoder_call_def Embedding_call_def Let_def embedded_dims [OF ids B]
        sum embedding_stage_def)
  show "shape3 B S dm (embedding_stage e ids training (noise0 rng))"
    unfolding embedding_stage_def by (intro Dropout_shape ss)
qed

text \<open>
  C5. For a well-formed encoder, a batch of \<open>B\<close> rows of \<open>S\<close> valid token ids with
  \<open>S\<close> within the positional table, the call returns the embedding stage (lookup,
  scaling by \<open>sqrt d_model\<close>, positions \<open>0, ..., S - 1\<close> added in every batch row,
  dropout) run through the layers in order, every layer with the same mask; the result
  has shape \<open>(B, S, d_model)\<close>; with \<open>num_layers = 0\<close> it is the embedding stage itself.
\<close>

theorem SASEncoder_call_spec:
  assumes e: "encoder_ok dm e"
    and ids: "shape2 B S ids" and pos: "0 < B" "0 < S"
    and tokens: "list_all (list_all (in_table (embedding e))) ids"
    and S: "S \<le> length (pos_embedding e)"
    and mk: "list_all (\<lambda>l. mask_ok B (nat (num_heads (mha l))) S S msk) (enc_layers e)"
  shows "SASEncoder_call e ids training msk rng
      = Inr (layer_stack (enc_layers e) 0 training msk (layer_noises rng)
               (embedding_stage e ids training (noise0 rng)))
    \<and> shape3 B S dm (layer_stack (enc_layers e) 0 training msk (layer_noises rng)
               (embedding_stage e ids training (noise0 rng)))
    \<and> (num_layers e = 0 \<longrightarrow>
          SASEncoder_call e ids training msk rng
            = Inr (embedding_stage e ids training (noise0 rng)))"
proof -
  from e have E: "length (enc_layers e) = nat (num_layers e)"
    "list_all (layer_ok dm) (enc_layers e)"
    "list_all (shape1 dm) (embedding e)" "list_all (shape1 dm) (pos_embedding e)"
    by (simp_all add: encoder_ok_def)
  note F = embedding_front [OF E(3,4) ids pos(1) tokens S]
  have run: "run_layers e training msk rngs y = layer_stack (enc_layers e) 0 training msk rngs y"
    for rngs y
    using run_layers_stack [of "enc_layers e" training msk rngs y 0]
    by (simp add: run_layers_def E(1))
  have 1: "SASEncoder_call e ids training msk rng
      = Inr (layer_stack (enc_layers e) 0 training msk (layer_noises rng)
               (embedding_stage e ids training (noise0 rng)))"
    by (simp add: F(1) run)
  have 2: "shape3 B S dm (layer_stack (enc_layers e) 0 training msk (layer_noises rng)
               (embedding_stage e ids training (noise0 rng)))"
    by (rule layer_stack_shape [OF E(2) F(2) pos mk])
  have 3: "SASEncoder_call e ids training msk rng
            = Inr (embedding_stage e ids training (noise0 rng))" if "num_layers e = 0"
    using E(1) that by (simp add: 1)
  from 1 2 3 show ?thesis by blast
qed

subsection \<open>The layers on the sample parameters\<close>

lemma sample_mha_ok: "mha_ok 2 2 2 sample_mha"
  by (simp add: mha_ok_def dense_ok_def sample_mha_def sample_dense_def shape2_def shape1_def)

lemma sample_mask_ok: "mask_ok 1 (nat (num_heads sample_mha)) 2 2 sample_mask"
  by (simp add: mask_ok_def broadcastable_def bsize_def sample_mask_def sample_mha_def)

lemma sample_input: "shape3 1 2 2 [[[1, 2], [3, 4 :: real]]]"
  by (simp add: shape3_def shape2_def shape1_def)

lemma sample_layer_ok: "layer_ok 2 sample_layer"
  using sample_mha_ok
  by (simp add: layer_ok_def sample_layer_def ffn_ok_def norm_ok_def sample_norm_def
      PointWiseFFN_init_def) (simp add: sample_mha_def)

theorem MultiHeadAttention_call_spec_witness:
  "MultiHeadAttention_init 2 2 sample_dense sample_dense sample_dense sample_dense = Inr sample_mha
   \<and> mha_ok 2 2 2 sample_mha \<and> shape3 1 2 2 [[[1, 2], [3, 4 :: real]]]
   \<and> mask_ok 1 (nat (num_heads sample_mha)) 2 2 sample_mask
   \<and> MultiHeadAttention_call sample_mha [[[1, 2], [3, 4]]] [[[1, 2], [3, 4]]] [[[1, 2], [3, 4]]]
        sample_mask
      = MultiHeadAttention_spec sample_mha [[[1, 2], [3, 4]]] [[[1, 2], [3, 4]]]
          [[[1, 2], [3, 4]]] sample_mask
   \<and> shape3 1 2 2 (fst (MultiHeadAttention_call sample_mha [[[1, 2], [3, 4]]] [[[1, 2], [3, 4]]]
        [[[1, 2], [3, 4]]] sample_mask))
   \<and> split_heads sample_mha (Dense_call (wq sample_mha) [[[1, 2], [3, 4]]]) 1 ! 0 ! 1 ! 0 ! 0
      = Dense_call (wq sample_mha) [[[1, 2], [3, 4]]] ! 0 ! 0 ! 1"
proof -
  have init: "MultiHeadAttention_init 2 2 sample_dense sample_dense sample_dense sample_dense
      = Inr sample_mha"
    by (simp add: MultiHeadAttention_init_def sample_mha_def)
  have p: "0 < (1::nat)" "0 < (2::nat)"
    by simp_all
  note T = MultiHeadAttention_call_spec [OF sample_mha_ok sample_input sample_input sample_input
      p(1) p(2) p(2) sample_mask_ok]
  from T have "\<forall>b<1. \<forall>h<nat (num_heads sample_mha). \<forall>s<2. \<forall>c<nat (depth sample_mha).
      split_heads sample_mha (Dense_call (wq sample_mha) [[[1, 2], [3, 4]]]) 1 ! b ! h ! s ! c
        = Dense_call (wq sample_mha) [[[1, 2], [3, 4]]] ! b ! s ! (h * nat (depth sample_mha) + c)"
    by blast
  then have "split_heads sample_mha (Dense_call (wq sample_mha) [[[1, 2], [3, 4]]]) 1
        ! 0 ! 1 ! 0 ! 0
      = Dense_call (wq sample_mha) [[[1, 2], [3, 4]]] ! 0 ! 0 ! 1"
    by (simp add: sample_mha_def)
  moreover have "nat (d_model sample_mha) = 2"
    by (simp add: sample_mha_def)
  ultimately show ?thesis
    using T init sample_mha_ok sample_input sample_mask_ok by metis
qed

theorem SASEncoderLayer_call_spec_witness:
  "layer_ok 2 sample_layer \<and> shape3 1 2 2 [[[1, 2], [3, 4 :: real]]]
   \<and> mask_ok 1 (nat (num_heads (mha sample_layer))) 2 2 sample_mask
   \<and> SASEncoderLayer_call sample_layer [[[1, 2], [3, 4]]] True sample_mask
        (layer_noises sample_noise 0)
      = SASEncoderLayer_spec sample_layer [[[1, 2], [3, 4]]] True sample_mask
          (layer_noises sample_noise 0)
   \<and> shape3 1 2 2 (SASEncoderLayer_call sample_layer [[[1, 2], [3, 4]]] True sample_mask
        (layer_noises sample_noise 0))"
proof -
  have mk: "mask_ok 1 (nat (num_heads (mha sample_layer))) 2 2 sample_mask"
    using sample_mask_ok by (simp add: sample_layer_def)
  have p: "0 < (1::nat)" "0 < (2::nat)"
    by simp_all
  from SASEncoderLayer_call_spec [OF sample_layer_ok sample_input p mk]
    sample_layer_ok sample_input mk
  show ?thesis by blast
qed

lemma sample_encoder_ok: "encoder_ok 2 (sample_encoder nl)"
  using sample_layer_ok
  by (simp add: encoder_ok_def sample_encoder_def SASEncoder_init_def list_all_iff shape1_def)

theorem SASEncoder_call_spec_witness:
  "encoder_ok 2 (sample_encoder 2) \<and> encoder_ok 2 (sample_encoder 0)
   \<and> shape2 1 2 [[1, 2 :: int]]
   \<and> list_all (list_all (in_table (embedding (sample_encoder 2)))) [[1, 2]]
   \<and> 2 \<le> length (pos_embedding (sample_encoder 2))
   \<and> SASEncoder_call (sample_encoder 2) [[1, 2]] True sample_mask sample_noise
      = Inr (layer_stack (enc_layers (sample_encoder 2)) 0 True sample_mask
               (layer_noises sample_noise)
               (embedding_stage (sample_encoder 2) [[1, 2]] True (noise0 sample_noise)))
   \<and> shape3 1 2 2 (layer_stack (enc_layers (sample_encoder 2)) 0 True sample_mask
               (layer_noises sample_noise)
               (embedding_stage (sample_encoder 2) [[1, 2]] True (noise0 sample_noise)))
   \<and> SASEncoder_call (sample_encoder 0) [[1, 2]] True sample_mask sample_noise
      = Inr (embedding_stage (sample_encoder 0) [[1, 2]] True (noise0 sample_noise))"
proof -
  have ids: "shape2 1 2 [[1, 2 :: int]]"
    by (simp add: shape2_def shape1_def)
  have tokens: "list_all (list_all (in_table (embedding (sample_encoder nl)))) [[1, 2]]" for nl
    by (simp add: sample_encoder_def SASEncoder_init_def in_table_def)
  have S: "2 \<le> length (pos_embedding (sample_encoder nl))" for nl
    by (simp add: sample_encoder_def SASEncoder_init_def)
  have mk: "list_all (\<lambda>l. mask_ok 1 (nat (num_heads (mha l))) 2 2 sample_mask)
      (enc_layers (sample_encoder nl))" for nl
    using sample_mask_ok
    by (simp add: sample_encoder_def SASEncoder_init_def list_all_iff sample_layer_def)
  have n0: "num_layers (sample_encoder 0) = 0"
    by (simp add: sample_encoder_def SASEncoder_init_def)
  have p: "0 < (1::nat)" "0 < (2::nat)"
    by simp_all
  from SASEncoder_call_spec [OF sample_encoder_ok ids p tokens S mk, of 2 True sample_noise]
    SASEncoder_call_spec [OF sample_encoder_ok ids p tokens S mk, of 0 True sample_noise]
    sample_encoder_ok ids tokens S n0
  show ?thesis by blast
qed

end
